theory Spec2Isabelle
  imports Main
begin

section \<open>JavaScript strings and numbers\<close>

text \<open>
  A JavaScript string is a sequence of UTF-16 code units; it is modelled as the list of
  their numeric values (each below 65536). An ASCII literal of the source is written
  \<open>js ''...''\<close>. The Numbers handled by the pipeline are token values and array indexes,
  all integers far below \<open>2 ^ 53\<close>, hence exactly represented; they are modelled as
  \<open>int\<close> and \<open>nat\<close>. BigInt values are \<open>int\<close>.
\<close>

type_synonym jsstring = "nat list"

definition js :: "string \<Rightarrow> jsstring" where
  "js s = map of_char s"

text \<open>
  The code units removed by \<open>String.prototype.trim\<close> and skipped by \<open>parseInt\<close>:
  ECMAScript WhiteSpace (TAB, VT, FF, SP, NBSP, ZWNBSP and the category Zs) and
  LineTerminator (LF, CR, LS, PS).
\<close>

definition is_ws :: "nat \<Rightarrow> bool" where
  "is_ws c \<longleftrightarrow>
     c = 0x09 \<or> c = 0x0A \<or> c = 0x0B \<or> c = 0x0C \<or> c = 0x0D \<or> c = 0x20 \<or> c = 0xA0 \<or>
     c = 0x1680 \<or> (0x2000 \<le> c \<and> c \<le> 0x200A) \<or> c = 0x2028 \<or> c = 0x2029 \<or>
     c = 0x202F \<or> c = 0x205F \<or> c = 0x3000 \<or> c = 0xFEFF"

definition trim :: "jsstring \<Rightarrow> jsstring" where
  "trim s = rev (dropWhile is_ws (rev (dropWhile is_ws s)))"

text \<open>\<open>s.slice(a, b)\<close> for \<open>0 \<le> a \<le> b\<close>; both ends are clamped to the length.\<close>

definition slice :: "jsstring \<Rightarrow> nat \<Rightarrow> nat \<Rightarrow> jsstring" where
  "slice s a b = take (b - a) (drop a s)"

text \<open>\<open>s.padStart(n, "0")\<close>: a string already of length \<open>n\<close> or more is unchanged.\<close>

definition padStart :: "jsstring \<Rightarrow> nat \<Rightarrow> nat \<Rightarrow> jsstring" where
  "padStart s n c = replicate (n - length s) c @ s"

subsection \<open>Digits\<close>

definition is_digit :: "nat \<Rightarrow> bool" where
  "is_digit c \<longleftrightarrow> 0x30 \<le> c \<and> c \<le> 0x39"

definition is_bit :: "nat \<Rightarrow> bool" where
  "is_bit c \<longleftrightarrow> c = 0x30 \<or> c = 0x31"

text \<open>The lower-case digit character of a digit value below 16 (\<open>0-9\<close>, \<open>a-f\<close>).\<close>

definition digit_char :: "nat \<Rightarrow> nat" where
  "digit_char d = (if d < 10 then 0x30 + d else 0x57 + d)"

text \<open>
  The value of a digit string in base \<open>b\<close>, most significant digit first, as
  \<open>BigInt(t)\<close> (\<open>b = 10\<close>), \<open>BigInt('0b' + t)\<close> (\<open>b = 2\<close>) and the digit run of
  \<open>parseInt\<close> read it.
\<close>

definition digits_value :: "nat \<Rightarrow> jsstring \<Rightarrow> nat" where
  "digits_value b ds = foldl (\<lambda>acc c. acc * b + (c - 0x30)) 0 ds"

text \<open>The canonical digits of a natural number in base \<open>b\<close> (\<open>2 \<le> b \<le> 16\<close>).\<close>

function to_digits :: "nat \<Rightarrow> nat \<Rightarrow> jsstring" where
  "to_digits b n =
     (if b < 2 \<or> n < b then [digit_char n]
      else to_digits b (n div b) @ [digit_char (n mod b)])"
  by pat_completeness auto
termination
  by (relation "measure (\<lambda>(b, n). n)") auto

text \<open>
  \<open>x.toString(radix)\<close> of an integer Number or a BigInt: a minus sign and the digits of
  the magnitude when negative.
\<close>

definition toString :: "int \<Rightarrow> nat \<Rightarrow> jsstring" where
  "toString x radix =
     (if x < 0 then 0x2D # to_digits radix (nat (- x)) else to_digits radix (nat x))"

text \<open>
  \<open>parseInt(s, 10)\<close>: leading white space is skipped, one sign is read, then the longest
  run of decimal digits; \<open>None\<close> is NaN (no digit). The source calls it on windows of at
  most 7 characters only, where the Number result is exact.
\<close>

definition parseInt10 :: "jsstring \<Rightarrow> int option" where
  "parseInt10 s =
     (let t = dropWhile is_ws s;
          neg = (t \<noteq> [] \<and> hd t = 0x2D);
          u = (if t \<noteq> [] \<and> (hd t = 0x2D \<or> hd t = 0x2B) then tl t else t);
          ds = takeWhile is_digit u
      in if ds = [] then None
         else Some (if neg then - int (digits_value 10 ds) else int (digits_value 10 ds)))"

text \<open>
  The value that a digit string denotes, as the specification words it: the sum of the
  digits weighted by the powers of the base, most significant digit first.
\<close>

definition positional_value :: "nat \<Rightarrow> jsstring \<Rightarrow> nat" where
  "positional_value b ds =
     sum_list (map (\<lambda>i. (ds ! i - 0x30) * b ^ (length ds - 1 - i)) [0 ..< length ds])"

text \<open>Reading a lower-case hexadecimal string back, to state how colors determine tokens.\<close>

definition is_hex :: "nat \<Rightarrow> bool" where
  "is_hex c \<longleftrightarrow> (0x30 \<le> c \<and> c \<le> 0x39) \<or> (0x61 \<le> c \<and> c \<le> 0x66)"

definition hex_digit_value :: "nat \<Rightarrow> nat" where
  "hex_digit_value c = (if c \<le> 0x39 then c - 0x30 else c - 0x57)"

definition hex_value :: "jsstring \<Rightarrow> nat" where
  "hex_value s = foldl (\<lambda>acc c. acc * 16 + hex_digit_value c) 0 s"

section \<open>Charset\<close>

text \<open>A block of the configuration: its inclusive code point range (the name is unused).\<close>

type_synonym block = "nat \<times> nat"

definition charsetConfigLite :: "block list" where
  "charsetConfigLite =
     [(0x0020, 0x007F), (0x0080, 0x00FF), (0x2000, 0x206F), (0x20A0, 0x20CF),
      (0x2200, 0x22FF), (0x2190, 0x21FF)]"

definition charsetConfigFull :: "block list" where
  "charsetConfigFull =
     [(0x0020, 0x007F), (0x0080, 0x00FF), (0x0100, 0x017F), (0x0180, 0x024F),
      (0x0370, 0x03FF), (0x0400, 0x04FF), (0x0600, 0x06FF), (0x0590, 0x05FF),
      (0x0900, 0x097F), (0x2200, 0x22FF), (0x2A00, 0x2AFF), (0x2300, 0x23FF),
      (0x2190, 0x21FF), (0x4E00, 0x9FFF), (0xAC00, 0xD7AF), (0x3040, 0x309F),
      (0x30A0, 0x30FF), (0x3100, 0x312F), (0x20A0, 0x20CF), (0x2000, 0x206F)]"

text \<open>\<open>String.fromCharCode(cp)\<close>: the one-unit string of \<open>cp\<close> truncated to 16 bits.\<close>

definition fromCharCode :: "nat \<Rightarrow> jsstring" where
  "fromCharCode cp = [cp mod 65536]"

text \<open>
  A JavaScript \<open>Set\<close> keeps its elements in insertion order; \<open>add\<close> of an element
  already present changes nothing.
\<close>

definition set_add :: "'a list \<Rightarrow> 'a \<Rightarrow> 'a list" where
  "set_add xs x = (if x \<in> set xs then xs else xs @ [x])"

text \<open>
  The symbols of all blocks in declaration order, then newline and tab; the \<open>catch\<close>
  around \<open>String.fromCharCode\<close> is never entered, since that function does not throw.
\<close>

definition generateCharsetFromConfig :: "block list \<Rightarrow> jsstring list" where
  "generateCharsetFromConfig config =
     (let charset = foldl (\<lambda>cs blk. foldl (\<lambda>cs cp. set_add cs (fromCharCode cp))
                                  cs [fst blk ..< Suc (snd blk)]) [] config;
          charset = set_add charset [0x0A];
          charset = set_add charset [0x09]
      in charset)"

text \<open>The \<open>Map\<close> from each symbol to its index; a later index overwrites an earlier one.\<close>

definition buildCharIndexMap :: "jsstring list \<Rightarrow> (jsstring \<rightharpoonup> nat)" where
  "buildCharIndexMap charsetArr =
     foldl (\<lambda>m i. m(charsetArr ! i \<mapsto> i)) Map.empty [0 ..< length charsetArr]"

section \<open>Acceptance pipeline\<close>

definition MAX_COLOR_INDEX :: int where
  "MAX_COLOR_INDEX = 16 ^ 6"

text \<open>
  \<open>Math.floor(Math.sqrt(n))\<close> of a non-negative integer: the source computes it in
  double precision, which is the exact integer square root for every array length.
\<close>

fun floor_sqrt :: "nat \<Rightarrow> nat" where
  "floor_sqrt 0 = 0"
| "floor_sqrt (Suc n) =
     (let r = floor_sqrt n in if Suc r * Suc r \<le> Suc n then Suc r else r)"

text \<open>The argument is an array length, a finite Number, so \<open>Number.isFinite(n)\<close> holds.\<close>

definition isPerfectSquare :: "int \<Rightarrow> bool" where
  "isPerfectSquare n =
     (if n \<le> 0 then False
      else (let r = int (floor_sqrt (nat n)) in r * r = n))"

text \<open>The loop of \<open>tokenizeDecimal7\<close>, from offset \<open>i\<close> with the tokens pushed so far.\<close>

function tokenize_loop :: "jsstring \<Rightarrow> nat \<Rightarrow> int list \<Rightarrow> int list" where
  "tokenize_loop decimalString i indexes =
     (if i < length decimalString then
        (let seg = slice decimalString i (i + 7);
             v = parseInt10 seg
         in tokenize_loop decimalString (i + 7)
              (case v of None \<Rightarrow> indexes | Some x \<Rightarrow> indexes @ [x]))
      else indexes)"
  by pat_completeness auto
termination
  by (relation "measure (\<lambda>(s, i, acc). length s - i)") auto

definition tokenizeDecimal7 :: "jsstring \<Rightarrow> int list" where
  "tokenizeDecimal7 decimalString = tokenize_loop decimalString 0 []"

text \<open>The window of token \<open>j\<close>: the slice that the loop takes at offset \<open>7 * j\<close>.\<close>

definition window :: "jsstring \<Rightarrow> nat \<Rightarrow> jsstring" where
  "window s j = slice s (7 * j) (7 * j + 7)"

record range_result =
  range_ok :: bool
  range_bad :: "(nat \<times> int) list"

text \<open>
  The bad tokens with their indexes, in index order. \<open>Number.isInteger(v)\<close> holds for
  every token, an integer by its type here.
\<close>

definition areValidColorIndexes :: "int list \<Rightarrow> range_result" where
  "areValidColorIndexes indexes =
     (let bad = filter (\<lambda>(i, v). \<not> (1 \<le> v \<and> v \<le> MAX_COLOR_INDEX))
                  (zip [0 ..< length indexes] indexes)
      in \<lparr> range_ok = (length bad = 0), range_bad = bad \<rparr>)"

definition colorIndexToHex :: "int \<Rightarrow> jsstring" where
  "colorIndexToHex idx = (let v = idx - 1 in js ''#'' @ padStart (toString v 16) 6 0x30)"

definition buildHexSequence :: "int list \<Rightarrow> jsstring list" where
  "buildHexSequence indexes = map colorIndexToHex indexes"

record adj_result =
  adj_ok :: bool
  adj_m :: nat
  adj_conflicts :: "nat list"
  adj_reason :: jsstring

text \<open>\<open>indexes[r * m + c]\<close>; \<open>None\<close> is the \<open>undefined\<close> of a read past the end.\<close>

definition at :: "int list \<Rightarrow> nat \<Rightarrow> nat \<Rightarrow> nat \<Rightarrow> int option" where
  "at indexes m r c =
     (if r * m + c < length indexes then Some (indexes ! (r * m + c)) else None)"

definition add :: "nat list \<Rightarrow> nat \<Rightarrow> nat \<Rightarrow> nat \<Rightarrow> nat list" where
  "add conflicts m r c = set_add conflicts (r * m + c)"

text \<open>The body of the two nested loops of \<open>adjacencyConflicts\<close>, at cell \<open>(r, c)\<close>.\<close>

definition adj_cell :: "int list \<Rightarrow> bool \<Rightarrow> nat \<Rightarrow> nat \<Rightarrow> nat list \<Rightarrow> nat \<Rightarrow> nat list" where
  "adj_cell indexes wrap m r conflicts c =
     (let cur = at indexes m r c;
          conflicts =
            (if c + 1 < m then
               (if cur = at indexes m r (c + 1)
                then add (add conflicts m r c) m r (c + 1) else conflicts)
             else if wrap \<and> m > 1 then
               (if cur = at indexes m r 0
                then add (add conflicts m r c) m r 0 else conflicts)
             else conflicts);
          conflicts =
            (if r + 1 < m then
               (if cur = at indexes m (r + 1) c
                then add (add conflicts m r c) m (r + 1) c else conflicts)
             else if wrap \<and> m > 1 then
               (if cur = at indexes m 0 c
                then add (add conflicts m r c) m 0 c else conflicts)
             else conflicts)
      in conflicts)"

definition adj_row :: "int list \<Rightarrow> bool \<Rightarrow> nat \<Rightarrow> nat list \<Rightarrow> nat \<Rightarrow> nat list" where
  "adj_row indexes wrap m conflicts r = foldl (adj_cell indexes wrap m r) conflicts [0 ..< m]"

definition adj_loops :: "int list \<Rightarrow> bool \<Rightarrow> nat \<Rightarrow> nat list" where
  "adj_loops indexes wrap m = foldl (adj_row indexes wrap m) [] [0 ..< m]"

definition adjacencyConflicts :: "int list \<Rightarrow> bool \<Rightarrow> adj_result" where
  "adjacencyConflicts indexes wrap =
     (let n = length indexes in
      if \<not> isPerfectSquare (int n)
      then \<lparr> adj_ok = False, adj_m = 0, adj_conflicts = [],
             adj_reason = js ''Tile count is not a perfect square.'' \<rparr>
      else
        (let m = floor_sqrt n;
             conflicts = adj_loops indexes wrap m
         in \<lparr> adj_ok = (length conflicts = 0), adj_m = m,
               adj_conflicts = sort conflicts,
               adj_reason =
                 (if length conflicts = 0 then js ''No adjacency conflicts.''
                  else js ''Found '' @ toString (int (length conflicts)) 10
                       @ js '' conflict cell(s).'') \<rparr>))"

text \<open>
  The neighbours that the adjacency check compares a cell with, as the specification
  words them: the cell to the right and the cell below, and at the last column or row
  the cell at the opposite edge when wrap is enabled and \<open>m > 1\<close>.
\<close>

definition right_neighbor :: "bool \<Rightarrow> nat \<Rightarrow> nat \<Rightarrow> nat \<Rightarrow> (nat \<times> nat) option" where
  "right_neighbor wrap m r c =
     (if c + 1 < m then Some (r, c + 1) else if wrap \<and> m > 1 then Some (r, 0) else None)"

definition down_neighbor :: "bool \<Rightarrow> nat \<Rightarrow> nat \<Rightarrow> nat \<Rightarrow> (nat \<times> nat) option" where
  "down_neighbor wrap m r c =
     (if r + 1 < m then Some (r + 1, c) else if wrap \<and> m > 1 then Some (0, c) else None)"

section \<open>Encoding a state as an integer\<close>

text \<open>
  The source throws \<open>Error\<close> objects that differ in their message only; the constructors
  name them as the specification does. \<open>InputFormatError\<close> carries the message, which
  tells the decimal parser from the binary one, and \<open>CharsetMembershipError\<close> the
  character that is not in the charset.
\<close>

datatype error =
    InputFormatError jsstring
  | EmptyInputError
  | CharsetMembershipError jsstring

text \<open>
  The parsers and encoders take the \<open>value\<close> of a text field, which is always a string;
  \<open>s ?? ""\<close> and \<open>!str\<close> treat a missing value as the empty string.
\<close>

definition parseDecimalBigInt :: "jsstring \<Rightarrow> error + int" where
  "parseDecimalBigInt s =
     (let t = trim s in
      if \<not> (t \<noteq> [] \<and> list_all is_digit t)
      then Inl (InputFormatError (js ''Decimal input must contain only digits 0-9.''))
      else Inr (int (digits_value 10 t)))"

definition parseBinaryToBigInt :: "jsstring \<Rightarrow> error + int" where
  "parseBinaryToBigInt s =
     (let t = trim s in
      if \<not> (t \<noteq> [] \<and> list_all is_bit t)
      then Inl (InputFormatError (js ''Binary input must contain only 0 and 1.''))
      else Inr (int (digits_value 2 t)))"

text \<open>
  \<open>for (const ch of str)\<close> iterates over code points: a high surrogate followed by a low
  surrogate is one two-unit \<open>ch\<close>, every other code unit is a \<open>ch\<close> of its own.
\<close>

definition is_high_surrogate :: "nat \<Rightarrow> bool" where
  "is_high_surrogate c \<longleftrightarrow> 0xD800 \<le> c \<and> c \<le> 0xDBFF"

definition is_low_surrogate :: "nat \<Rightarrow> bool" where
  "is_low_surrogate c \<longleftrightarrow> 0xDC00 \<le> c \<and> c \<le> 0xDFFF"

fun js_iter :: "jsstring \<Rightarrow> jsstring list" where
  "js_iter [] = []"
| "js_iter [c] = [[c]]"
| "js_iter (c # d # s) =
     (if is_high_surrogate c \<and> is_low_surrogate d then [c, d] # js_iter s
      else [c] # js_iter (d # s))"

text \<open>The loops of the two encoders; \<open>acc\<close> is the source's \<open>id\<close>.\<close>

fun classic_loop :: "int \<Rightarrow> (jsstring \<rightharpoonup> nat) \<Rightarrow> int \<Rightarrow> jsstring list \<Rightarrow> error + int" where
  "classic_loop k charToIdx acc [] = Inr acc"
| "classic_loop k charToIdx acc (ch # rest) =
     (case charToIdx ch of
        None \<Rightarrow> Inl (CharsetMembershipError ch)
      | Some idx \<Rightarrow> classic_loop k charToIdx (acc * k + int idx) rest)"

definition encodeStringClassic ::
    "jsstring \<Rightarrow> jsstring list \<Rightarrow> (jsstring \<rightharpoonup> nat) \<Rightarrow> error + int" where
  "encodeStringClassic str charsetArr charToIdx =
     (if str = [] \<or> trim str = [] then Inl EmptyInputError
      else classic_loop (int (length charsetArr)) charToIdx 0 (js_iter str))"

fun bijective_loop :: "int \<Rightarrow> (jsstring \<rightharpoonup> nat) \<Rightarrow> int \<Rightarrow> jsstring list \<Rightarrow> error + int" where
  "bijective_loop k charToIdx acc [] = Inr acc"
| "bijective_loop k charToIdx acc (ch # rest) =
     (case charToIdx ch of
        None \<Rightarrow> Inl (CharsetMembershipError ch)
      | Some idx0 \<Rightarrow> (let digit = int idx0 + 1 in bijective_loop k charToIdx (acc * k + digit) rest))"

definition encodeStringBijective ::
    "jsstring \<Rightarrow> jsstring list \<Rightarrow> (jsstring \<rightharpoonup> nat) \<Rightarrow> error + int" where
  "encodeStringBijective str charsetArr charToIdx =
     (if str = [] \<or> trim str = [] then Inl EmptyInputError
      else bijective_loop (int (length charsetArr)) charToIdx 0 (js_iter str))"

section \<open>Evaluation\<close>

text \<open>
  What \<open>evaluate\<close> reads from the page: the input mode (every mode other than
  \<open>'decimal'\<close> and \<open>'binary'\<close> is the string mode), the three text fields, the charset
  profile (every value other than \<open>'full'\<close> selects the lite charset), the encoding mode
  (every value other than \<open>'bijective'\<close> selects the classic encoding) and the wrap toggle.
\<close>

datatype input_mode = ModeDecimal | ModeBinary | ModeString
datatype charset_profile = ProfileLite | ProfileFull
datatype encoding_mode = EncClassic | EncBijective

record page =
  inputMode :: input_mode
  decimal_input :: jsstring
  binary_input :: jsstring
  string_input :: jsstring
  charsetProfile :: charset_profile
  encodingMode :: encoding_mode
  toggle_wrap :: bool

text \<open>What \<open>evaluate\<close> shows and hands to the report.\<close>

record evaluation =
  ev_base10 :: jsstring
  ev_tokens :: "int list"
  ev_range :: range_result
  ev_hex :: "jsstring list"
  ev_squareOk :: bool
  ev_m :: nat
  ev_adj :: adj_result
  ev_accepted :: bool
  ev_reason :: jsstring

text \<open>Step (i): the state as an integer.\<close>

definition encode_state :: "page \<Rightarrow> error + int" where
  "encode_state p =
     (case inputMode p of
        ModeDecimal \<Rightarrow> parseDecimalBigInt (decimal_input p)
      | ModeBinary \<Rightarrow> parseBinaryToBigInt (binary_input p)
      | ModeString \<Rightarrow>
          (let cfg = (if charsetProfile p = ProfileFull then charsetConfigFull
                      else charsetConfigLite);
               charsetArr = generateCharsetFromConfig cfg;
               charToIdx = buildCharIndexMap charsetArr;
               s = string_input p
           in if encodingMode p = EncBijective
              then encodeStringBijective s charsetArr charToIdx
              else encodeStringClassic s charsetArr charToIdx))"

text \<open>Steps (ii) to (v) and the verdict, from the integer of step (i).\<close>

definition validate :: "int \<Rightarrow> bool \<Rightarrow> evaluation" where
  "validate N wrap =
     (let base10 = toString N 10;
          tokens = tokenizeDecimal7 base10;
          range = areValidColorIndexes tokens;
          hex = (if range_ok range then buildHexSequence tokens
                 else map (\<lambda>_. [0x2014]) tokens);
          squareOk = isPerfectSquare (int (length tokens));
          m = (if squareOk then floor_sqrt (length tokens) else 0);
          adj = (if squareOk \<and> range_ok range then adjacencyConflicts tokens wrap
                 else \<lparr> adj_ok = False, adj_m = m, adj_conflicts = [],
                        adj_reason = js ''Not evaluated (failed earlier rule).'' \<rparr>);
          accepted = (squareOk \<and> range_ok range \<and> adj_ok adj);
          reason = (if accepted then js ''All rules satisfied''
                    else if \<not> squareOk then js ''Not a perfect square tile count''
                    else if \<not> range_ok range then js ''One or more tokens out of range''
                    else js ''Adjacent tile conflict(s)'')
      in \<lparr> ev_base10 = base10, ev_tokens = tokens, ev_range = range, ev_hex = hex,
            ev_squareOk = squareOk, ev_m = m, ev_adj = adj, ev_accepted = accepted,
            ev_reason = reason \<rparr>)"

text \<open>
  \<open>evaluate\<close>: an error thrown by step (i) is caught and shown (\<open>Inl\<close>); otherwise the
  verdict of the validation.
\<close>

definition evaluate :: "page \<Rightarrow> error + evaluation" where
  "evaluate p =
     (case encode_state p of
        Inl err \<Rightarrow> Inl err
      | Inr N \<Rightarrow> Inr (validate N (toggle_wrap p)))"

declare to_digits.simps [simp del] tokenize_loop.simps [simp del]

section \<open>Evaluation on concrete inputs\<close>

lemma validate_tokens: "ev_tokens (validate N wrap) = tokenizeDecimal7 (toString N 10)"
  by (simp add: validate_def Let_def)

lemma floor_sqrt_small: "floor_sqrt 1 = 1" "floor_sqrt 2 = 1" "floor_sqrt 4 = 2"
  by (simp_all add: eval_nat_numeral)

lemma toString_5: "toString 5 10 = js ''5''"
  by (simp add: toString_def to_digits.simps digit_char_def js_def)

lemma toString_0: "toString 0 10 = js ''0''"
  by (simp add: toString_def to_digits.simps digit_char_def js_def)

lemma toString_8: "toString 12345678 10 = js ''12345678''"
  by (simp add: toString_def to_digits.simps digit_char_def js_def)

lemma toString_28: "toString 9999999999999999999999999999 10 = js ''9999999999999999999999999999''"
  by (simp add: toString_def to_digits.simps digit_char_def js_def)

lemmas tokenize_eval = tokenizeDecimal7_def tokenize_loop.simps slice_def parseInt10_def js_def
      is_ws_def is_digit_def digits_value_def

lemma tokens_5: "ev_tokens (validate 5 w) = [5]"
  unfolding validate_tokens toString_5 by (simp add: tokenize_eval)
lemma tokens_0: "ev_tokens (validate 0 w) = [0]"
  unfolding validate_tokens toString_0 by (simp add: tokenize_eval)
lemma tokens_8: "ev_tokens (validate 12345678 w) = [1234567, 8]"
  unfolding validate_tokens toString_8 by (simp add: tokenize_eval)
lemma tokens_28: "ev_tokens (validate 9999999999999999999999999999 w) = [9999999, 9999999, 9999999, 9999999]"
  unfolding validate_tokens toString_28 by (simp add: tokenize_eval)

lemma adj_5: "adj_ok (adjacencyConflicts [5] False)"
  by (simp add: adjacencyConflicts_def isPerfectSquare_def floor_sqrt_small adj_loops_def
      adj_row_def adj_cell_def at_def add_def set_add_def)

lemma adj_28: "\<not> adj_ok (adjacencyConflicts [9999999, 9999999, 9999999, 9999999] False)"
  by (simp add: adjacencyConflicts_def isPerfectSquare_def floor_sqrt_small adj_loops_def
      adj_row_def adj_cell_def at_def add_def set_add_def upt_rec)

lemma range_eval:
  "range_ok (areValidColorIndexes [5])" "\<not> range_ok (areValidColorIndexes [0])"
  "range_ok (areValidColorIndexes [9999999, 9999999, 9999999, 9999999])"
  by (simp_all add: areValidColorIndexes_def MAX_COLOR_INDEX_def upt_rec)

lemma shape_eval: "isPerfectSquare 1" "\<not> isPerfectSquare 2" "isPerfectSquare 4"
  by (simp_all add: isPerfectSquare_def floor_sqrt_small)

section \<open>The shape check\<close>

lemma floor_sqrt_bounds:
  "floor_sqrt n * floor_sqrt n \<le> n \<and> n < Suc (floor_sqrt n) * Suc (floor_sqrt n)"
proof (induction n)
  case 0
  show ?case by simp
next
  case (Suc n)
  then show ?case by (auto simp: Let_def)
qed

lemma floor_sqrt_square: "floor_sqrt (m * m) = m"
proof -
  let ?r = "floor_sqrt (m * m)"
  have le: "?r * ?r \<le> m * m" and lt: "m * m < Suc ?r * Suc ?r"
    using floor_sqrt_bounds [of "m * m"] by simp_all
  have "?r \<le> m"
  proof (rule ccontr)
    assume "\<not> ?r \<le> m"
    then have "Suc m \<le> ?r" by linarith
    then have "Suc m * Suc m \<le> ?r * ?r" using mult_le_mono by blast
    with le show False by simp
  qed
  moreover have "m \<le> ?r"
  proof (rule ccontr)
    assume "\<not> m \<le> ?r"
    then have "Suc ?r \<le> m" by linarith
    then have "Suc ?r * Suc ?r \<le> m * m" using mult_le_mono by blast
    with lt show False by simp
  qed
  ultimately show ?thesis by simp
qed

lemma isPerfectSquare_iff: "isPerfectSquare n \<longleftrightarrow> (\<exists>m. 0 < m \<and> m * m = n)"
proof
  assume "isPerfectSquare n"
  then have pos: "0 < n" and sq: "int (floor_sqrt (nat n)) * int (floor_sqrt (nat n)) = n"
    by (auto simp: isPerfectSquare_def Let_def split: if_splits)
  from pos sq have "0 < int (floor_sqrt (nat n))"
    by (cases "floor_sqrt (nat n)") auto
  with sq show "\<exists>m. 0 < m \<and> m * m = n" by blast
next
  assume "\<exists>m. 0 < m \<and> m * m = n"
  then obtain m where m: "0 < m" "m * m = n" by blast
  have "nat (m * m) = nat m * nat m" using m(1) by (simp add: nat_mult_distrib)
  then have n: "nat n = nat m * nat m" using m(2) by simp
  have "int (floor_sqrt (nat n)) = m" unfolding n floor_sqrt_square using m by simp
  moreover from m have "0 < n" by (metis mult_pos_pos)
  ultimately show "isPerfectSquare n" using m by (simp add: isPerfectSquare_def)
qed

lemma isPerfectSquare_iff_nonzero: "isPerfectSquare n \<longleftrightarrow> n \<noteq> 0 \<and> (\<exists>m. m * m = n)"
proof
  assume "isPerfectSquare n"
  then obtain m where "0 < m" "m * m = n" unfolding isPerfectSquare_iff by blast
  then show "n \<noteq> 0 \<and> (\<exists>m. m * m = n)" by auto
next
  assume "n \<noteq> 0 \<and> (\<exists>m. m * m = n)"
  then obtain m where m: "n \<noteq> 0" "m * m = n" by blast
  then have "0 < \<bar>m\<bar>" "\<bar>m\<bar> * \<bar>m\<bar> = n" by (auto simp: abs_mult_self_eq)
  then show "isPerfectSquare n" unfolding isPerfectSquare_iff by blast
qed

lemma adjacencyConflicts_not_square:
  "\<not> isPerfectSquare (int (length indexes)) \<Longrightarrow>
   adjacencyConflicts indexes wrap =
     \<lparr> adj_ok = False, adj_m = 0, adj_conflicts = [],
       adj_reason = js ''Tile count is not a perfect square.'' \<rparr>"
  by (simp add: adjacencyConflicts_def)

lemma validate_squareOk:
  "ev_squareOk (validate N wrap) = isPerfectSquare (int (length (ev_tokens (validate N wrap))))"
  by (simp add: validate_def Let_def)

lemma validate_m:
  "ev_m (validate N wrap) =
     (if ev_squareOk (validate N wrap) then floor_sqrt (length (ev_tokens (validate N wrap)))
      else 0)"
  by (simp add: validate_def Let_def)

text \<open>
  C6, as the code has it. The shape check accepts a count \<open>n\<close> exactly when \<open>n\<close> is not
  zero and some integer \<open>m\<close> satisfies \<open>m * m = n\<close>: the counts 4, 9 and 16 pass, 5, 6
  and 10 fail, and the count 0 is rejected by the guard \<open>n <= 0\<close> although \<open>0 = 0 * 0\<close>.
  When the check fails, the grid side \<open>m\<close> is reported as 0, by \<open>adjacencyConflicts\<close>
  and by \<open>evaluate\<close>.
\<close>

theorem shape_check_iff_nonzero_square:
  "(isPerfectSquare n \<longleftrightarrow> n \<noteq> 0 \<and> (\<exists>m. m * m = n)) \<and>
   isPerfectSquare 4 \<and> isPerfectSquare 9 \<and> isPerfectSquare 16 \<and>
   \<not> isPerfectSquare 5 \<and> \<not> isPerfectSquare 6 \<and> \<not> isPerfectSquare 10 \<and>
   (\<not> isPerfectSquare (int (length indexes)) \<longrightarrow>
      adj_m (adjacencyConflicts indexes wrap) = 0) \<and>
   ev_squareOk (validate N wrap)
     = isPerfectSquare (int (length (ev_tokens (validate N wrap)))) \<and>
   (\<not> ev_squareOk (validate N wrap) \<longrightarrow> ev_m (validate N wrap) = 0)"
proof -
  have ex: "isPerfectSquare 4" "isPerfectSquare 9" "isPerfectSquare 16"
    "\<not> isPerfectSquare 5" "\<not> isPerfectSquare 6" "\<not> isPerfectSquare 10"
    by (simp_all add: isPerfectSquare_def eval_nat_numeral)
  show ?thesis
    using ex isPerfectSquare_iff_nonzero [of n] validate_squareOk [of N wrap]
    by (simp add: adjacencyConflicts_not_square validate_m)
qed

theorem shape_check_iff_nonzero_square_witness:
  "isPerfectSquare 4 \<and> (\<exists>m::int. m * m = 4) \<and>
   \<not> isPerfectSquare (int (length [1, 2, 3 :: int])) \<and>
   adj_m (adjacencyConflicts [1, 2, 3] True) = 0 \<and>
   \<not> ev_squareOk (validate 12345678 True) \<and>
   ev_m (validate 12345678 True) = 0"
proof -
  note t = shape_check_iff_nonzero_square [where n = 4 and indexes = "[1, 2, 3]"
      and wrap = True and N = 12345678]
  have h: "\<not> isPerfectSquare (int (length [1, 2, 3 :: int]))"
    by (simp add: isPerfectSquare_def eval_nat_numeral)
  have "\<not> isPerfectSquare (int (length (ev_tokens (validate 12345678 True))))"
    unfolding tokens_8 by (simp add: shape_eval)
  with t have k: "\<not> ev_squareOk (validate 12345678 True)" by blast
  from t have e: "\<exists>m::int. m * m = 4" by blast
  show ?thesis using t h k e by blast
qed

text \<open>
  The claim C6 as written fails at the count 0, which has the integer square root 0
  and is rejected.
\<close>

theorem shape_check_zero_counterexample:
  "\<not> isPerfectSquare 0 \<and> (0::int) * 0 = 0"
  by (simp add: isPerfectSquare_def)

section \<open>The tokenizer\<close>

lemma is_digit_not_ws: "is_digit c \<Longrightarrow> \<not> is_ws c"
  by (auto simp: is_digit_def is_ws_def)

lemma parseInt10_digits:
  assumes "ds \<noteq> []" "list_all is_digit ds"
  shows "parseInt10 ds = Some (int (digits_value 10 ds))"
proof -
  from assms obtain c cs where ds: "ds = c # cs" and c: "is_digit c"
    by (cases ds) auto
  have 1: "dropWhile is_ws ds = ds" using c by (simp add: ds is_digit_not_ws)
  have 2: "hd ds \<noteq> 0x2D" "hd ds \<noteq> 0x2B" using c by (auto simp: ds is_digit_def)
  have 3: "takeWhile is_digit ds = ds"
    using assms(2) by (simp add: takeWhile_eq_all_conv list_all_iff)
  show ?thesis using assms(1) by (simp add: parseInt10_def 1 2 3)
qed

lemma digits_value_snoc: "digits_value b (ds @ [c]) = digits_value b ds * b + (c - 0x30)"
  by (simp add: digits_value_def)

lemma digits_value_bound:
  "list_all is_digit ds \<Longrightarrow> digits_value 10 ds < 10 ^ length ds"
proof (induction ds rule: rev_induct)
  case Nil
  show ?case by (simp add: digits_value_def)
next
  case (snoc c ds)
  then have "digits_value 10 ds < 10 ^ length ds" and "c - 0x30 \<le> 9"
    by (auto simp: is_digit_def)
  then show ?case by (simp add: digits_value_snoc)
qed


lemma tokenize_loop_digits:
  "list_all is_digit s \<Longrightarrow>
   tokenize_loop s i acc =
     acc @ map (\<lambda>j. int (digits_value 10 (slice s (i + 7 * j) (i + 7 * j + 7))))
             [0 ..< (length s - i + 6) div 7]"
proof (induction s i acc rule: tokenize_loop.induct)
  case (1 s i acc)
  show ?case
  proof (cases "i < length s")
    case False
    then show ?thesis by (simp add: tokenize_loop.simps [of s i acc])
  next
    case True
    let ?seg = "slice s i (i + 7)"
    have seg: "?seg \<noteq> []" "list_all is_digit ?seg"
      using True "1.prems" by (auto simp: slice_def list_all_iff dest: in_set_takeD in_set_dropD)
    have p: "parseInt10 ?seg = Some (int (digits_value 10 ?seg))"
      using seg by (rule parseInt10_digits)
    have n: "(length s - i + 6) div 7 = Suc ((length s - (i + 7) + 6) div 7)"
    proof (cases "i + 7 \<le> length s")
      case True
      then have "length s - i + 6 = (length s - (i + 7) + 6) + 7" by simp
      then show ?thesis by (simp only: div_add_self2)
    next
      case False
      with \<open>i < length s\<close> have "(length s - i + 6) div 7 = 1"
        by (intro div_nat_eqI) simp_all
      with False show ?thesis by simp
    qed
    have "tokenize_loop s i acc =
            tokenize_loop s (i + 7) (acc @ [int (digits_value 10 ?seg)])"
      using True by (simp add: tokenize_loop.simps [of s i acc] p)
    also have "\<dots> = (acc @ [int (digits_value 10 ?seg)]) @
        map (\<lambda>j. int (digits_value 10 (slice s (i + 7 + 7 * j) (i + 7 + 7 * j + 7))))
          [0 ..< (length s - (i + 7) + 6) div 7]"
      using "1.IH" [OF True refl refl "1.prems"] p by simp
    finally show ?thesis
      unfolding n by (simp add: map_upt_Suc add.assoc del: upt_Suc)
  qed
qed


lemma tokenizeDecimal7_digits:
  "list_all is_digit s \<Longrightarrow>
   tokenizeDecimal7 s = map (\<lambda>j. int (digits_value 10 (window s j))) [0 ..< (length s + 6) div 7]"
  by (simp add: tokenizeDecimal7_def tokenize_loop_digits window_def)

lemma window_length: "length (window s j) = min 7 (length s - 7 * j)"
  by (simp add: window_def slice_def min.commute)

lemma window_digits: "list_all is_digit s \<Longrightarrow> list_all is_digit (window s j)"
  by (auto simp: window_def slice_def list_all_iff dest: in_set_takeD in_set_dropD)

lemma token_bounds:
  assumes "list_all is_digit s" "v \<in> set (tokenizeDecimal7 s)"
  shows "0 \<le> v \<and> v \<le> 9999999"
proof -
  from assms obtain j where v: "v = int (digits_value 10 (window s j))"
    by (auto simp: tokenizeDecimal7_digits)
  have "digits_value 10 (window s j) < 10 ^ length (window s j)"
    using assms(1) by (intro digits_value_bound window_digits)
  also have "\<dots> \<le> 10 ^ 7"
    by (rule power_increasing) (simp_all add: window_length)
  finally show ?thesis by (simp add: v)
qed


lemma tokens_nth:
  assumes "list_all is_digit s" "j < (length s + 6) div 7"
  shows "tokenizeDecimal7 s ! j = int (digits_value 10 (window s j))"
  using assms by (simp add: tokenizeDecimal7_digits)

lemma ceil7: "length s \<le> 7 * ((length s + 6) div 7) \<and> 7 * ((length s + 6) div 7) < length s + 7"
proof -
  have "(length s + 6) = 7 * ((length s + 6) div 7) + (length s + 6) mod 7" by simp
  moreover have "(length s + 6) mod 7 < 7" by simp
  ultimately show ?thesis by linarith
qed

lemma window_nonempty: "j < (length s + 6) div 7 \<Longrightarrow> window s j \<noteq> []"
proof -
  assume "j < (length s + 6) div 7"
  with ceil7 [of s] have "7 * j < length s" by linarith
  then have "0 < length (window s j)" by (simp add: window_length)
  then show ?thesis by auto
qed

section \<open>Decimal text of the encoded integer\<close>

lemma to_digits_decimal:
  "2 \<le> b \<Longrightarrow> b \<le> 10 \<Longrightarrow> to_digits b n \<noteq> [] \<and> list_all is_digit (to_digits b n)"
proof (induction b n rule: to_digits.induct)
  case (1 b n)
  show ?case
  proof (cases "n < b")
    case True
    with "1.prems" show ?thesis
      by (simp add: to_digits.simps [of b n] digit_char_def is_digit_def)
  next
    case False
    have "n mod b < b" using "1.prems" by simp
    then have "n mod b < 10" using "1.prems" by linarith
    with False "1.prems" "1.IH" show ?thesis
      by (simp add: to_digits.simps [of b n] digit_char_def is_digit_def)
  qed
qed

lemma toString10_nonneg:
  "0 \<le> N \<Longrightarrow> toString N 10 \<noteq> [] \<and> list_all is_digit (toString N 10)"
  using to_digits_decimal [of 10 "nat N"] by (simp add: toString_def)

lemma classic_loop_nonneg:
  "0 \<le> k \<Longrightarrow> 0 \<le> acc \<Longrightarrow> classic_loop k m acc xs = Inr N \<Longrightarrow> 0 \<le> N"
proof (induction xs arbitrary: acc)
  case Nil
  then show ?case by simp
next
  case (Cons ch xs)
  from Cons.prems obtain idx where idx: "m ch = Some idx"
    and r: "classic_loop k m (acc * k + int idx) xs = Inr N"
    by (auto split: option.splits)
  have "0 \<le> acc * k + int idx" using Cons.prems by simp
  then show ?case using Cons.IH Cons.prems(1) r by blast
qed

lemma bijective_loop_nonneg:
  "0 \<le> k \<Longrightarrow> 0 \<le> acc \<Longrightarrow> bijective_loop k m acc xs = Inr N \<Longrightarrow> 0 \<le> N"
proof (induction xs arbitrary: acc)
  case Nil
  then show ?case by simp
next
  case (Cons ch xs)
  from Cons.prems obtain idx where idx: "m ch = Some idx"
    and r: "bijective_loop k m (acc * k + (int idx + 1)) xs = Inr N"
    by (auto split: option.splits)
  have "0 \<le> acc * k + (int idx + 1)" using Cons.prems by simp
  then show ?case using Cons.IH Cons.prems(1) r by blast
qed

lemma encode_state_nonneg: "encode_state p = Inr N \<Longrightarrow> 0 \<le> N"
  by (auto simp: encode_state_def parseDecimalBigInt_def parseBinaryToBigInt_def Let_def
        encodeStringClassic_def encodeStringBijective_def
      split: input_mode.splits if_splits
      dest: classic_loop_nonneg [rotated 2] bijective_loop_nonneg [rotated 2])

lemma tokenize_nonempty:
  "s \<noteq> [] \<Longrightarrow> list_all is_digit s \<Longrightarrow> tokenizeDecimal7 s \<noteq> []"
proof -
  assume s: "s \<noteq> []" "list_all is_digit s"
  then have "0 < length s" by simp
  with ceil7 [of s] have "0 < (length s + 6) div 7" by linarith
  with s(2) have "0 < length (tokenizeDecimal7 s)" by (simp add: tokenizeDecimal7_digits)
  then show ?thesis by auto
qed


text \<open>
  C5. For every decimal digit string of length \<open>L\<close> the tokenizer produces exactly
  \<open>\<lceil>L / 7\<rceil>\<close> tokens (the least count \<open>n\<close> with \<open>L \<le> 7 * n\<close>). Token \<open>j\<close> is
  \<open>parseInt\<close> of the window that starts at offset \<open>7 * j\<close> and holds at most 7 characters,
  read in base 10; a window is never padded, so the last one has the remaining
  \<open>L - 7 * j\<close> characters when these are fewer than 7. A text of length \<open>7 * k\<close> gives
  \<open>k\<close> tokens, each from a window of 7 characters.
\<close>

theorem tokenizeDecimal7_count:
  "list_all is_digit s \<Longrightarrow>
   length (tokenizeDecimal7 s) = (length s + 6) div 7 \<and>
   length s \<le> 7 * length (tokenizeDecimal7 s) \<and>
   7 * length (tokenizeDecimal7 s) < length s + 7 \<and>
   (\<forall>j < length (tokenizeDecimal7 s).
      window s j = take 7 (drop (7 * j) s) \<and>
      window s j \<noteq> [] \<and>
      length (window s j) = min 7 (length s - 7 * j) \<and>
      parseInt10 (window s j) = Some (tokenizeDecimal7 s ! j) \<and>
      tokenizeDecimal7 s ! j = int (digits_value 10 (window s j))) \<and>
   (length s = 7 * k \<longrightarrow>
      length (tokenizeDecimal7 s) = k \<and> (\<forall>j < k. length (window s j) = 7))"
proof -
  assume d: "list_all is_digit s"
  have len: "length (tokenizeDecimal7 s) = (length s + 6) div 7"
    using d by (simp add: tokenizeDecimal7_digits)
  have win: "window s j = take 7 (drop (7 * j) s) \<and> window s j \<noteq> [] \<and>
      length (window s j) = min 7 (length s - 7 * j) \<and>
      parseInt10 (window s j) = Some (tokenizeDecimal7 s ! j) \<and>
      tokenizeDecimal7 s ! j = int (digits_value 10 (window s j))"
    if "j < length (tokenizeDecimal7 s)" for j
  proof -
    from that have j: "j < (length s + 6) div 7" by (simp add: len)
    have "parseInt10 (window s j) = Some (int (digits_value 10 (window s j)))"
      using window_nonempty [OF j] window_digits [OF d] by (rule parseInt10_digits)
    then show ?thesis
      using window_nonempty [OF j] tokens_nth [OF d j]
      by (simp add: window_length) (simp add: window_def slice_def)
  qed
  have full: "length (tokenizeDecimal7 s) = k \<and> (\<forall>j < k. length (window s j) = 7)"
    if "length s = 7 * k"
  proof -
    have "(7 * k + 6) div 7 = k" by (intro div_nat_eqI) simp_all
    moreover have "length (window s j) = 7" if "j < k" for j
    proof -
      from that have "7 * j + 7 \<le> 7 * k" by simp
      then show ?thesis using \<open>length s = 7 * k\<close> by (simp add: window_length)
    qed
    ultimately show ?thesis using that by (simp add: len)
  qed
  have c: "length s \<le> 7 * length (tokenizeDecimal7 s) \<and>
      7 * length (tokenizeDecimal7 s) < length s + 7"
    using ceil7 [of s] by (simp add: len)
  show ?thesis using len c win full by blast
qed

theorem tokenizeDecimal7_count_witness:
  "list_all is_digit (js ''12345678'') \<and> length (tokenizeDecimal7 (js ''12345678'')) = 2"
proof -
  have h: "list_all is_digit (js ''12345678'')" by (simp add: js_def is_digit_def)
  show ?thesis using h tokenizeDecimal7_count [OF h, of 0] by (simp add: js_def)
qed

text \<open>
  C8. Every token of a decimal digit string lies between 0 and 9,999,999, which is below
  the upper bound \<open>16 ^ 6 = 16,777,216\<close> of the range check. Hence the tokens that the
  range check reports as bad are exactly the tokens equal to 0, and the check passes
  exactly when no token is 0.
\<close>

theorem token_range_only_zero_fails:
  "list_all is_digit s \<Longrightarrow>
   (\<forall>v \<in> set (tokenizeDecimal7 s). 0 \<le> v \<and> v \<le> 9999999 \<and> v < MAX_COLOR_INDEX) \<and>
   MAX_COLOR_INDEX = 16777216 \<and>
   range_bad (areValidColorIndexes (tokenizeDecimal7 s))
     = filter (\<lambda>(i, v). v = 0) (zip [0 ..< length (tokenizeDecimal7 s)] (tokenizeDecimal7 s)) \<and>
   (\<forall>i < length (tokenizeDecimal7 s).
      (i, tokenizeDecimal7 s ! i) \<in> set (range_bad (areValidColorIndexes (tokenizeDecimal7 s)))
        \<longleftrightarrow> tokenizeDecimal7 s ! i = 0) \<and>
   (range_ok (areValidColorIndexes (tokenizeDecimal7 s)) \<longleftrightarrow> 0 \<notin> set (tokenizeDecimal7 s))"
proof -
  assume d: "list_all is_digit s"
  let ?ts = "tokenizeDecimal7 s"
  have b: "0 \<le> v \<and> v \<le> 9999999" if "v \<in> set ?ts" for v
    using d that by (rule token_bounds)
  have mx: "MAX_COLOR_INDEX = 16777216" by (simp add: MAX_COLOR_INDEX_def)
  have bad: "range_bad (areValidColorIndexes ?ts)
     = filter (\<lambda>(i, v). v = 0) (zip [0 ..< length ?ts] ?ts)"
    unfolding areValidColorIndexes_def Let_def range_result.simps
  proof (rule filter_cong [OF refl])
    fix x assume "x \<in> set (zip [0 ..< length ?ts] ?ts)"
    then have "snd x \<in> set ?ts" by (metis in_set_zipE prod.collapse)
    from b [OF this] show "(case x of (i, v) \<Rightarrow> \<not> (1 \<le> v \<and> v \<le> MAX_COLOR_INDEX))
        = (case x of (i, v) \<Rightarrow> v = 0)"
      by (auto simp: mx split: prod.splits)
  qed
  have mem: "(i, ?ts ! i) \<in> set (range_bad (areValidColorIndexes ?ts)) \<longleftrightarrow> ?ts ! i = 0"
    if "i < length ?ts" for i
  proof -
    from that have "(i, ?ts ! i) \<in> set (zip [0 ..< length ?ts] ?ts)"
      by (auto simp: in_set_zip intro!: exI [of _ i])
    then show ?thesis unfolding bad by simp
  qed
  have ok: "range_ok (areValidColorIndexes ?ts) \<longleftrightarrow> 0 \<notin> set ?ts"
  proof -
    have "range_ok (areValidColorIndexes ?ts) \<longleftrightarrow> range_bad (areValidColorIndexes ?ts) = []"
      by (simp add: areValidColorIndexes_def Let_def)
    also have "\<dots> \<longleftrightarrow> 0 \<notin> set ?ts"
      unfolding bad by (auto simp: filter_empty_conv set_zip in_set_conv_nth)
    finally show ?thesis .
  qed
  have b': "0 \<le> v \<and> v \<le> 9999999 \<and> v < MAX_COLOR_INDEX" if "v \<in> set ?ts" for v
    using b [OF that] by (simp add: mx)
  show ?thesis using b' mx bad mem ok by blast
qed

theorem token_range_only_zero_fails_witness:
  "list_all is_digit (js ''00000001234567'') \<and>
   range_bad (areValidColorIndexes (tokenizeDecimal7 (js ''00000001234567''))) = [(0, 0)]"
proof -
  have h: "list_all is_digit (js ''00000001234567'')" by (simp add: js_def is_digit_def)
  have t: "tokenizeDecimal7 (js ''00000001234567'') = [0, 1234567]"
    by (simp add: tokenizeDecimal7_def tokenize_loop.simps slice_def parseInt10_def js_def
        is_ws_def is_digit_def digits_value_def)
  from token_range_only_zero_fails [OF h]
  have "range_bad (areValidColorIndexes (tokenizeDecimal7 (js ''00000001234567'')))
     = filter (\<lambda>(i, v). v = 0) (zip [0 ..< length (tokenizeDecimal7 (js ''00000001234567''))]
          (tokenizeDecimal7 (js ''00000001234567'')))"
    by blast
  then show ?thesis using h unfolding t by (simp add: upt_rec)
qed

text \<open>
  C10. Each of the three encoders produces a non-negative integer. The decimal text of
  a non-negative integer is a non-empty digit string, so the tokenizer yields at least
  one token from it. Hence every evaluation that reaches the validator has a non-empty
  token stream, and the shape check is never run on the count 0.
\<close>

theorem token_stream_never_empty:
  "(encode_state p = Inr N \<longrightarrow> 0 \<le> N) \<and>
   (0 \<le> M \<longrightarrow> toString M 10 \<noteq> [] \<and> list_all is_digit (toString M 10) \<and>
      tokenizeDecimal7 (toString M 10) \<noteq> []) \<and>
   (evaluate p = Inr ev \<longrightarrow>
      ev_base10 ev \<noteq> [] \<and> ev_tokens ev = tokenizeDecimal7 (ev_base10 ev) \<and>
      ev_tokens ev \<noteq> [] \<and> 0 < length (ev_tokens ev) \<and>
      ev_squareOk ev = isPerfectSquare (int (length (ev_tokens ev))))"
proof -
  have 1: "toString M 10 \<noteq> [] \<and> list_all is_digit (toString M 10) \<and>
      tokenizeDecimal7 (toString M 10) \<noteq> []" if "0 \<le> M" for M
    using toString10_nonneg [OF that] tokenize_nonempty by blast
  have 2: "ev_base10 ev \<noteq> [] \<and> ev_tokens ev = tokenizeDecimal7 (ev_base10 ev) \<and>
      ev_tokens ev \<noteq> [] \<and> 0 < length (ev_tokens ev) \<and>
      ev_squareOk ev = isPerfectSquare (int (length (ev_tokens ev)))"
    if "evaluate p = Inr ev"
  proof -
    from that obtain K where K: "encode_state p = Inr K" and ev: "ev = validate K (toggle_wrap p)"
      by (auto simp: evaluate_def split: sum.splits)
    have t: "ev_base10 ev = toString K 10" "ev_tokens ev = tokenizeDecimal7 (toString K 10)"
      "ev_squareOk ev = isPerfectSquare (int (length (ev_tokens ev)))"
      by (simp_all add: ev validate_def Let_def)
    from 1 [OF encode_state_nonneg [OF K]] t show ?thesis by simp
  qed
  show ?thesis using encode_state_nonneg 1 2 by blast
qed

theorem token_stream_never_empty_witness:
  "encode_state \<lparr>inputMode = ModeDecimal, decimal_input = js ''42'', binary_input = [],
       string_input = [], charsetProfile = ProfileLite, encodingMode = EncClassic,
       toggle_wrap = False\<rparr> = Inr 42 \<and>
   tokenizeDecimal7 (toString 42 10) \<noteq> [] \<and>
   ev_tokens (validate 42 False) \<noteq> []"
proof -
  let ?p = "\<lparr>inputMode = ModeDecimal, decimal_input = js ''42'', binary_input = [],
       string_input = [], charsetProfile = ProfileLite, encodingMode = EncClassic,
       toggle_wrap = False\<rparr>"
  have e: "encode_state ?p = Inr 42"
    by (simp add: encode_state_def parseDecimalBigInt_def trim_def js_def is_ws_def
        is_digit_def digits_value_def)
  then have v: "evaluate ?p = Inr (validate 42 False)" by (simp add: evaluate_def)
  note t = token_stream_never_empty [of ?p 42 42 "validate 42 False"]
  from t have a: "tokenizeDecimal7 (toString 42 10) \<noteq> []" by simp
  from t v have b: "ev_tokens (validate 42 False) \<noteq> []" by blast
  show ?thesis using e a b by blast
qed

section \<open>The adjacency check\<close>

lemma set_set_add: "set (set_add xs x) = insert x (set xs)"
  by (auto simp: set_add_def)

lemma set_add_conflict: "set (add cs m r c) = insert (r * m + c) (set cs)"
  by (simp add: add_def set_set_add)

lemma adj_cell_mono: "set cs \<subseteq> set (adj_cell indexes wrap m r cs c)"
  by (auto simp: adj_cell_def Let_def set_add_conflict)

lemma adj_cell_right:
  assumes "right_neighbor wrap m r c = Some (r', c')"
    and "at indexes m r c = at indexes m r' c'"
  shows "{r * m + c, r' * m + c'} \<subseteq> set (adj_cell indexes wrap m r cs c)"
  using assms
  by (auto simp: adj_cell_def right_neighbor_def Let_def set_add_conflict split: if_splits)

lemma adj_cell_down:
  assumes "down_neighbor wrap m r c = Some (r', c')"
    and "at indexes m r c = at indexes m r' c'"
  shows "{r * m + c, r' * m + c'} \<subseteq> set (adj_cell indexes wrap m r cs c)"
  using assms
  by (auto simp: adj_cell_def down_neighbor_def Let_def set_add_conflict split: if_splits)

lemma foldl_mono:
  assumes "\<And>cs x. set cs \<subseteq> set (f cs x)"
  shows "set cs \<subseteq> set (foldl f cs xs)"
proof (induction xs arbitrary: cs)
  case Nil
  show ?case by simp
next
  case (Cons x xs)
  have "set cs \<subseteq> set (f cs x)" by (rule assms)
  also have "\<dots> \<subseteq> set (foldl f (f cs x) xs)" by (rule Cons.IH)
  finally show ?case by simp
qed

lemma foldl_marks:
  assumes mono: "\<And>cs x. set cs \<subseteq> set (f cs x)"
    and x: "x \<in> set xs"
    and marks: "\<And>cs. A \<subseteq> set (f cs x)"
  shows "A \<subseteq> set (foldl f cs xs)"
  using x
proof (induction xs arbitrary: cs)
  case Nil
  then show ?case by simp
next
  case (Cons y ys)
  show ?case
  proof (cases "x = y")
    case True
    have "A \<subseteq> set (f cs y)" unfolding True [symmetric] by (rule marks)
    also have "\<dots> \<subseteq> set (foldl f (f cs y) ys)" using mono by (rule foldl_mono)
    finally show ?thesis by simp
  next
    case False
    with Cons.prems have "x \<in> set ys" by simp
    then show ?thesis using Cons.IH by simp
  qed
qed

lemma adj_row_mono: "set cs \<subseteq> set (adj_row indexes wrap m cs r)"
  unfolding adj_row_def by (rule foldl_mono) (rule adj_cell_mono)

lemma adj_loops_marks:
  assumes "r < m" "c < m" and "\<And>cs. A \<subseteq> set (adj_cell indexes wrap m r cs c)"
  shows "A \<subseteq> set (adj_loops indexes wrap m)"
proof -
  have row: "A \<subseteq> set (adj_row indexes wrap m cs r)" for cs
    unfolding adj_row_def
    by (rule foldl_marks [where x = c]) (use assms in \<open>simp_all add: adj_cell_mono\<close>)
  show ?thesis
    unfolding adj_loops_def
    by (rule foldl_marks [where x = r]) (use assms row in \<open>simp_all add: adj_row_mono\<close>)
qed

lemma perfect_square_side:
  assumes "isPerfectSquare (int n)"
  shows "floor_sqrt n * floor_sqrt n = n \<and> 0 < floor_sqrt n"
proof -
  from assms have "0 < n" and "int (floor_sqrt n) * int (floor_sqrt n) = int n"
    by (auto simp: isPerfectSquare_def Let_def split: if_splits)
  then have "floor_sqrt n * floor_sqrt n = n" by (metis of_nat_eq_iff of_nat_mult)
  with \<open>0 < n\<close> show ?thesis by (cases "floor_sqrt n") auto
qed

lemma cell_in_range: "(r::nat) < m \<Longrightarrow> c < m \<Longrightarrow> r * m + c < m * m"
proof -
  assume "r < m" "c < m"
  then have "r * m + c < Suc r * m" by simp
  also have "\<dots> \<le> m * m" using \<open>r < m\<close> by (intro mult_le_mono) simp_all
  finally show ?thesis .
qed

lemma neighbor_in_grid:
  "r < m \<Longrightarrow> c < m \<Longrightarrow>
   right_neighbor wrap m r c = Some (r', c') \<or> down_neighbor wrap m r c = Some (r', c') \<Longrightarrow>
   r' < m \<and> c' < m"
  by (auto simp: right_neighbor_def down_neighbor_def split: if_splits)

lemma adjacencyConflicts_square:
  "isPerfectSquare (int (length indexes)) \<Longrightarrow>
   set (adj_conflicts (adjacencyConflicts indexes wrap))
     = set (adj_loops indexes wrap (floor_sqrt (length indexes))) \<and>
   adj_ok (adjacencyConflicts indexes wrap)
     = (adj_loops indexes wrap (floor_sqrt (length indexes)) = []) \<and>
   adj_m (adjacencyConflicts indexes wrap) = floor_sqrt (length indexes)"
  by (simp add: adjacencyConflicts_def Let_def)

text \<open>
  C7. Let the token stream have a perfect-square length \<open>m * m\<close>, let \<open>(r, c)\<close> be a cell
  of the grid and \<open>(r', c')\<close> its right or down neighbour (the cell at the opposite edge
  when the cell is in the last column or row, wrap is enabled and \<open>m > 1\<close>). If both hold
  the same token, then the flat indexes \<open>r * m + c\<close> and \<open>r' * m + c'\<close> are both in the
  conflict set that \<open>adjacencyConflicts\<close> reports, for either wrap setting, and the
  check fails.
\<close>

theorem adjacency_marks_both_cells:
  assumes sq: "isPerfectSquare (int (length indexes))"
    and m: "m = floor_sqrt (length indexes)"
    and rc: "r < m" "c < m"
    and nb: "right_neighbor wrap m r c = Some (r', c') \<or> down_neighbor wrap m r c = Some (r', c')"
    and eq: "indexes ! (r * m + c) = indexes ! (r' * m + c')"
  shows "length indexes = m * m \<and> r' < m \<and> c' < m \<and>
         r * m + c \<in> set (adj_conflicts (adjacencyConflicts indexes wrap)) \<and>
         r' * m + c' \<in> set (adj_conflicts (adjacencyConflicts indexes wrap)) \<and>
         \<not> adj_ok (adjacencyConflicts indexes wrap)"
proof -
  have len: "length indexes = m * m" using perfect_square_side [OF sq] m by simp
  have rc': "r' < m" "c' < m" using neighbor_in_grid [OF rc nb] by simp_all
  have "at indexes m r c = at indexes m r' c'"
    using eq cell_in_range [OF rc] cell_in_range [OF rc'] by (simp add: at_def len)
  then have "{r * m + c, r' * m + c'} \<subseteq> set (adj_cell indexes wrap m r cs c)" for cs
    using nb adj_cell_right adj_cell_down by blast
  then have "{r * m + c, r' * m + c'} \<subseteq> set (adj_loops indexes wrap m)"
    by (rule adj_loops_marks [OF rc])
  then show ?thesis
    using adjacencyConflicts_square [OF sq, of wrap] len rc' unfolding m [symmetric] by auto
qed

theorem adjacency_marks_both_cells_witness:
  "0 \<in> set (adj_conflicts (adjacencyConflicts [1, 1, 2, 3] False)) \<and>
   1 \<in> set (adj_conflicts (adjacencyConflicts [1, 1, 2, 3] False)) \<and>
   \<not> adj_ok (adjacencyConflicts [1, 1, 2, 3] False)"
proof -
  have sq: "isPerfectSquare (int (length [1, 1, 2, 3 :: int]))"
    by (simp add: isPerfectSquare_def floor_sqrt_small)
  have m: "2 = floor_sqrt (length [1, 1, 2, 3 :: int])" by (simp add: floor_sqrt_small)
  have nb: "right_neighbor False 2 0 0 = Some (0, 1) \<or> down_neighbor False 2 0 0 = Some (0, 1)"
    by (simp add: right_neighbor_def)
  have eq: "[1, 1, 2, 3 :: int] ! (0 * 2 + 0) = [1, 1, 2, 3] ! (0 * 2 + 1)" by simp
  show ?thesis
    using adjacency_marks_both_cells [OF sq m _ _ nb eq] by simp
qed

section \<open>The verdict\<close>

text \<open>
  C3. The verdict is Accept exactly when the shape check, the range check and the
  adjacency check of the token stream all pass. On rejection the reason is that of the
  first failing check in the order shape, range, adjacency. The adjacency check is run
  only when the shape and the range check both pass; otherwise its result is the
  placeholder "Not evaluated (failed earlier rule)." Every evaluation that does not end
  in an error is such a verdict, on the integer of the encoder.
\<close>

theorem verdict_first_failing_check:
  "(let ev = validate N wrap;
        tokens = ev_tokens ev;
        shape = isPerfectSquare (int (length tokens));
        range = range_ok (areValidColorIndexes tokens);
        adjacency = adj_ok (adjacencyConflicts tokens wrap)
    in ev_squareOk ev = shape \<and>
       ev_range ev = areValidColorIndexes tokens \<and>
       ev_accepted ev = (shape \<and> range \<and> adjacency) \<and>
       ev_reason ev =
         (if \<not> shape then js ''Not a perfect square tile count''
          else if \<not> range then js ''One or more tokens out of range''
          else if \<not> adjacency then js ''Adjacent tile conflict(s)''
          else js ''All rules satisfied'') \<and>
       ev_adj ev =
         (if shape \<and> range then adjacencyConflicts tokens wrap
          else \<lparr> adj_ok = False, adj_m = ev_m ev, adj_conflicts = [],
                 adj_reason = js ''Not evaluated (failed earlier rule).'' \<rparr>)) \<and>
   (evaluate p = Inr ev' \<longrightarrow>
      (\<exists>K. encode_state p = Inr K \<and> ev' = validate K (toggle_wrap p)))"
  by (auto simp: validate_def Let_def evaluate_def split: sum.splits)

theorem verdict_first_failing_check_witness:
  "encode_state \<lparr>inputMode = ModeDecimal, decimal_input = js ''5'', binary_input = [],
       string_input = [], charsetProfile = ProfileLite, encodingMode = EncClassic,
       toggle_wrap = False\<rparr> = Inr 5 \<and>
   ev_accepted (validate 5 False) \<and>
   ev_reason (validate 5 False) = js ''All rules satisfied'' \<and>
   ev_reason (validate 12345678 False) = js ''Not a perfect square tile count'' \<and>
   ev_reason (validate 0 False) = js ''One or more tokens out of range'' \<and>
   ev_reason (validate 9999999999999999999999999999 False) = js ''Adjacent tile conflict(s)''"
proof -
  let ?p = "\<lparr>inputMode = ModeDecimal, decimal_input = js ''5'', binary_input = [],
       string_input = [], charsetProfile = ProfileLite, encodingMode = EncClassic,
       toggle_wrap = False\<rparr>"
  have e: "encode_state ?p = Inr 5"
    by (simp add: encode_state_def parseDecimalBigInt_def trim_def js_def is_ws_def
        is_digit_def digits_value_def)
  then have v: "evaluate ?p = Inr (validate 5 False)" by (simp add: evaluate_def)
  note t = verdict_first_failing_check [where p = ?p and ev' = "validate 5 False" and wrap = False]
  have a: "ev_accepted (validate 5 False) \<and>
      ev_reason (validate 5 False) = js ''All rules satisfied''"
    using v t [where N = 5] unfolding Let_def tokens_5
    by (simp add: adj_5 range_eval shape_eval)
  have b: "ev_reason (validate 12345678 False) = js ''Not a perfect square tile count''"
    using t [where N = 12345678] unfolding Let_def tokens_8 by (simp add: shape_eval)
  have c: "ev_reason (validate 0 False) = js ''One or more tokens out of range''"
    using t [where N = 0] unfolding Let_def tokens_0 by (simp add: range_eval shape_eval)
  have d: "ev_reason (validate 9999999999999999999999999999 False)
      = js ''Adjacent tile conflict(s)''"
    using t [where N = 9999999999999999999999999999] unfolding Let_def tokens_28
    by (simp add: adj_28 range_eval shape_eval)
  show ?thesis using e a b c d by blast
qed

section \<open>The parsers\<close>

lemma trim_empty_iff: "trim s = [] \<longleftrightarrow> list_all is_ws s"
proof
  assume "trim s = []"
  then have all: "\<forall>x \<in> set (dropWhile is_ws s). is_ws x"
    by (simp add: trim_def dropWhile_eq_Nil_conv)
  have "dropWhile is_ws s = []"
  proof (rule ccontr)
    assume ne: "dropWhile is_ws s \<noteq> []"
    then have "\<not> is_ws (hd (dropWhile is_ws s))" by (rule hd_dropWhile)
    moreover from ne have "hd (dropWhile is_ws s) \<in> set (dropWhile is_ws s)" by simp
    ultimately show False using all by blast
  qed
  then show "list_all is_ws s" by (simp add: dropWhile_eq_Nil_conv list_all_iff)
next
  assume "list_all is_ws s"
  then have d: "dropWhile is_ws s = []" by (simp add: dropWhile_eq_Nil_conv list_all_iff)
  show "trim s = []" unfolding trim_def d by simp
qed

lemma positional_value_snoc:
  "positional_value b (ds @ [c]) = positional_value b ds * b + (c - 0x30)"
proof -
  have eq: "map (\<lambda>i. ((ds @ [c]) ! i - 0x30) * b ^ (length ds - i)) [0 ..< length ds]
      = map (\<lambda>i. (ds ! i - 0x30) * b ^ (length ds - Suc i) * b) [0 ..< length ds]"
  proof (rule map_cong [OF refl])
    fix i assume "i \<in> set [0 ..< length ds]"
    then have i: "i < length ds" by simp
    then have "length ds - i = Suc (length ds - Suc i)" by simp
    then have "b ^ (length ds - i) = b ^ (length ds - Suc i) * b" by simp
    then show "((ds @ [c]) ! i - 0x30) * b ^ (length ds - i)
        = (ds ! i - 0x30) * b ^ (length ds - Suc i) * b"
      using i by (simp add: nth_append)
  qed
  have "positional_value b (ds @ [c])
      = sum_list (map (\<lambda>i. ((ds @ [c]) ! i - 0x30) * b ^ (length ds - i)) [0 ..< length ds])
        + (c - 0x30)"
    by (simp add: positional_value_def)
  also have "\<dots> = sum_list (map (\<lambda>i. (ds ! i - 0x30) * b ^ (length ds - Suc i) * b)
        [0 ..< length ds]) + (c - 0x30)"
    by (simp only: eq)
  also have "\<dots> = positional_value b ds * b + (c - 0x30)"
    by (simp add: positional_value_def sum_list_mult_const)
  finally show ?thesis .
qed

lemma digits_value_positional: "digits_value b ds = positional_value b ds"
proof (induction ds rule: rev_induct)
  case Nil
  show ?case by (simp add: digits_value_def positional_value_def)
next
  case (snoc c ds)
  then show ?case by (simp add: digits_value_snoc positional_value_snoc)
qed

lemma classic_loop_error:
  "classic_loop k m acc xs \<noteq> Inl EmptyInputError \<and>
   (\<forall>msg. classic_loop k m acc xs \<noteq> Inl (InputFormatError msg))"
  by (induction xs arbitrary: acc) (auto split: option.splits)

lemma bijective_loop_error:
  "bijective_loop k m acc xs \<noteq> Inl EmptyInputError \<and>
   (\<forall>msg. bijective_loop k m acc xs \<noteq> Inl (InputFormatError msg))"
  by (induction xs arbitrary: acc) (auto split: option.splits simp: Let_def)

lemma digit_sets:
  "list_all is_digit t \<longleftrightarrow> set t \<subseteq> {0x30 .. 0x39}"
  "list_all is_bit t \<longleftrightarrow> set t \<subseteq> {0x30, 0x31}"
  by (auto simp: list_all_iff is_digit_def is_bit_def)

text \<open>
  C9. \<open>parseDecimalBigInt\<close> raises the input format error exactly when the trimmed input
  does not match \<open>^[0-9]+$\<close> (it is empty or has a character outside \<open>0-9\<close>), and
  otherwise returns the value that the digit string denotes in base 10;
  \<open>parseBinaryToBigInt\<close> does the same with \<open>^[01]+$\<close> and base 2. Both text encoders
  raise the empty input error exactly on the inputs that are empty or all white space.
\<close>

theorem parsers_and_empty_input:
  "parseDecimalBigInt s =
     (if trim s \<noteq> [] \<and> set (trim s) \<subseteq> {0x30 .. 0x39}
      then Inr (int (positional_value 10 (trim s)))
      else Inl (InputFormatError (js ''Decimal input must contain only digits 0-9.''))) \<and>
   parseBinaryToBigInt s =
     (if trim s \<noteq> [] \<and> set (trim s) \<subseteq> {0x30, 0x31}
      then Inr (int (positional_value 2 (trim s)))
      else Inl (InputFormatError (js ''Binary input must contain only 0 and 1.''))) \<and>
   (encodeStringClassic str charsetArr charToIdx = Inl EmptyInputError
      \<longleftrightarrow> (\<forall>c \<in> set str. is_ws c)) \<and>
   (encodeStringBijective str charsetArr charToIdx = Inl EmptyInputError
      \<longleftrightarrow> (\<forall>c \<in> set str. is_ws c))"
proof -
  have 1: "parseDecimalBigInt s =
     (if trim s \<noteq> [] \<and> set (trim s) \<subseteq> {0x30 .. 0x39}
      then Inr (int (positional_value 10 (trim s)))
      else Inl (InputFormatError (js ''Decimal input must contain only digits 0-9.'')))"
    by (simp add: parseDecimalBigInt_def Let_def digit_sets digits_value_positional)
  have 2: "parseBinaryToBigInt s =
     (if trim s \<noteq> [] \<and> set (trim s) \<subseteq> {0x30, 0x31}
      then Inr (int (positional_value 2 (trim s)))
      else Inl (InputFormatError (js ''Binary input must contain only 0 and 1.'')))"
    by (simp add: parseBinaryToBigInt_def Let_def digit_sets digits_value_positional)
  have e: "str = [] \<or> trim str = [] \<longleftrightarrow> (\<forall>c \<in> set str. is_ws c)"
    by (auto simp: trim_empty_iff list_all_iff)
  have 3: "encodeStringClassic str charsetArr charToIdx = Inl EmptyInputError
      \<longleftrightarrow> (\<forall>c \<in> set str. is_ws c)"
    unfolding e [symmetric] by (simp add: encodeStringClassic_def classic_loop_error)
  have 4: "encodeStringBijective str charsetArr charToIdx = Inl EmptyInputError
      \<longleftrightarrow> (\<forall>c \<in> set str. is_ws c)"
    unfolding e [symmetric] by (simp add: encodeStringBijective_def bijective_loop_error)
  show ?thesis using 1 2 3 4 by blast
qed

theorem parsers_and_empty_input_witness:
  "parseDecimalBigInt (js '' 42 '') = Inr 42 \<and>
   parseBinaryToBigInt (js ''101'') = Inr 5 \<and>
   encodeStringClassic (js ''  '') [] Map.empty = Inl EmptyInputError \<and>
   encodeStringBijective (js ''  '') [] Map.empty = Inl EmptyInputError"
proof -
  note t = parsers_and_empty_input [where str = "js ''  ''" and charsetArr = "[]"
      and charToIdx = Map.empty]
  have tr: "trim (js '' 42 '') = js ''42''" "trim (js ''101'') = js ''101''"
    by (simp_all add: trim_def js_def is_ws_def)
  have d: "parseDecimalBigInt (js '' 42 '') = Inr 42"
    using t [where s = "js '' 42 ''"] unfolding tr
    by (simp add: js_def positional_value_def upt_rec)
  have b: "parseBinaryToBigInt (js ''101'') = Inr 5"
    using t [where s = "js ''101''"] unfolding tr
    by (simp add: js_def positional_value_def upt_rec)
  have w: "\<forall>c \<in> set (js ''  ''). is_ws c" by (simp add: js_def is_ws_def)
  show ?thesis using d b w t [where s = "[]"] by blast
qed

section \<open>The colorizer\<close>

lemma hex_value_snoc: "hex_value (s @ [c]) = hex_value s * 16 + hex_digit_value c"
  by (simp add: hex_value_def)

lemma hex_digit_char: "d < 16 \<Longrightarrow> hex_digit_value (digit_char d) = d \<and> is_hex (digit_char d)"
  by (auto simp: hex_digit_value_def digit_char_def is_hex_def)

lemma digit_char_hex: "is_hex c \<Longrightarrow> digit_char (hex_digit_value c) = c \<and> hex_digit_value c < 16"
  by (auto simp: hex_digit_value_def digit_char_def is_hex_def)

lemma to_digits_16:
  "hex_value (to_digits 16 n) = n \<and> list_all is_hex (to_digits 16 n) \<and> to_digits 16 n \<noteq> []"
proof (induction "16::nat" n rule: to_digits.induct)
  case (1 n)
  show ?case
  proof (cases "n < 16")
    case True
    then show ?thesis
      using hex_digit_char [of n] by (simp add: to_digits.simps [of 16 n] hex_value_def)
  next
    case False
    have "n mod 16 < 16" by simp
    from hex_digit_char [OF this] False "1.hyps" show ?thesis
      by (simp add: to_digits.simps [of 16 n] hex_value_snoc)
  qed
qed

lemma to_digits_16_length: "n < 16 ^ k \<Longrightarrow> 0 < k \<Longrightarrow> length (to_digits 16 n) \<le> k"
proof (induction k arbitrary: n)
  case 0
  then show ?case by simp
next
  case (Suc k)
  show ?case
  proof (cases "n < 16")
    case True
    then show ?thesis by (simp add: to_digits.simps [of 16 n])
  next
    case False
    then have k: "0 < k" using Suc.prems(1) by (cases k) auto
    from Suc.prems(1) have "n div 16 < 16 ^ k"
      by (simp add: less_mult_imp_div_less mult.commute)
    from Suc.IH [OF this k] False show ?thesis by (simp add: to_digits.simps [of 16 n])
  qed
qed

lemma hex_value_pad: "hex_value (replicate k 0x30 @ s) = hex_value s"
proof -
  have "foldl (\<lambda>acc c. acc * 16 + hex_digit_value c) 0 (replicate k 0x30) = 0"
    by (induction k) (simp_all add: hex_digit_value_def)
  then show ?thesis by (simp add: hex_value_def)
qed

lemma colorIndexToHex_eq:
  "1 \<le> v \<Longrightarrow> colorIndexToHex v = 0x23 # padStart (to_digits 16 (nat (v - 1))) 6 0x30"
  by (simp add: colorIndexToHex_def toString_def js_def)

lemma colorIndexToHex_value: "1 \<le> v \<Longrightarrow> hex_value (tl (colorIndexToHex v)) = nat (v - 1)"
  by (simp add: colorIndexToHex_eq padStart_def hex_value_pad to_digits_16)

lemma colorIndexToHex_inj:
  assumes "1 \<le> a" "1 \<le> b" "colorIndexToHex a = colorIndexToHex b"
  shows "a = b"
proof -
  have "nat (a - 1) = nat (b - 1)"
    using colorIndexToHex_value [OF assms(1)] colorIndexToHex_value [OF assms(2)] assms(3)
    by simp
  with assms(1,2) show ?thesis by simp
qed

lemma colorIndexToHex_shape:
  assumes "1 \<le> v" "v \<le> 16 ^ 6"
  shows "length (colorIndexToHex v) = 7 \<and> list_all is_hex (tl (colorIndexToHex v))"
proof -
  have "nat (v - 1) < 16 ^ 6" using assms by (simp add: nat_less_iff)
  then have "length (to_digits 16 (nat (v - 1))) \<le> 6" by (rule to_digits_16_length) simp
  then show ?thesis
    using to_digits_16 [of "nat (v - 1)"]
    by (auto simp: colorIndexToHex_eq [OF assms(1)] padStart_def is_hex_def list_all_iff)
qed

lemma hex_value_bound: "list_all is_hex s \<Longrightarrow> hex_value s < 16 ^ length s"
proof (induction s rule: rev_induct)
  case Nil
  show ?case by (simp add: hex_value_def)
next
  case (snoc c s)
  then have "hex_value s < 16 ^ length s" and "hex_digit_value c < 16"
    by (auto dest: digit_char_hex)
  then show ?case by (simp add: hex_value_snoc)
qed

lemma pad_to_digits_hex:
  "s \<noteq> [] \<Longrightarrow> list_all is_hex s \<Longrightarrow>
   padStart (to_digits 16 (hex_value s)) (length s) 0x30 = s"
proof (induction s rule: rev_nonempty_induct)
  case (single c)
  then show ?case
    using digit_char_hex [of c]
    by (simp add: hex_value_def padStart_def to_digits.simps [of 16 "hex_digit_value c"])
next
  case (snoc c s)
  from snoc.prems have hs: "list_all is_hex s" and hc: "is_hex c" by simp_all
  note dc = digit_char_hex [OF hc]
  note IH = snoc.IH [OF hs]
  let ?h = "hex_value s"
  let ?d = "hex_digit_value c"
  have len: "length (to_digits 16 ?h) \<le> length s"
    using hex_value_bound [OF hs] snoc.hyps by (intro to_digits_16_length) simp_all
  show ?case
  proof (cases "?h = 0")
    case True
    have s0: "s = replicate (length s) 0x30"
      using IH snoc.hyps unfolding True
      by (simp add: padStart_def to_digits.simps [of 16 0] digit_char_def
          replicate_append_same) (metis Suc_pred length_greater_0_conv replicate_Suc replicate_append_same)
    have "to_digits 16 (hex_value (s @ [c])) = [c]"
      using dc by (simp add: hex_value_snoc True to_digits.simps [of 16 ?d])
    then show ?thesis using s0 by (simp add: padStart_def) 
  next
    case False
    then have "\<not> ?h * 16 + ?d < 16" by simp
    then have "to_digits 16 (hex_value (s @ [c])) = to_digits 16 ?h @ [c]"
      using dc by (simp add: hex_value_snoc to_digits.simps [of 16 "?h * 16 + ?d"])
    then show ?thesis using IH len by (simp add: padStart_def Suc_diff_le)
  qed
qed


lemma colorIndexToHex_onto:
  assumes "length s = 6" "list_all is_hex s"
  shows "\<exists>v. 1 \<le> v \<and> v \<le> 16 ^ 6 \<and> colorIndexToHex v = 0x23 # s"
proof -
  let ?v = "int (hex_value s) + 1"
  from assms(1) have ne: "s \<noteq> []" by auto
  have "hex_value s < 16 ^ 6" using hex_value_bound [OF assms(2)] assms(1) by simp
  then have r: "1 \<le> ?v" "?v \<le> 16 ^ 6" by simp_all
  have "colorIndexToHex ?v = 0x23 # padStart (to_digits 16 (hex_value s)) 6 0x30"
    by (simp add: colorIndexToHex_eq)
  also have "\<dots> = 0x23 # s" using pad_to_digits_hex [OF ne assms(2)] assms(1) by simp
  finally show ?thesis using r by blast
qed

lemma replicate_5: "replicate 5 x = [x, x, x, x, x]"
  by (simp add: numeral_eq_Suc)

lemma toString_hex_0: "toString 0 16 = [48]"
  by (simp add: toString_def to_digits.simps digit_char_def)

lemma toString_hex_max: "toString 16777215 16 = js ''ffffff''"
  by (simp add: toString_def to_digits.simps digit_char_def js_def)

text \<open>
  C1, as the code has it. For every token value \<open>v\<close> in \<open>[1, 16 ^ 6]\<close> the colorizer
  returns the character \<open>#\<close> followed by \<open>hex(v - 1)\<close> zero-padded to 6 digits: 7
  characters, of which the last 6 are lower-case hexadecimal digits that denote \<open>v - 1\<close>.
  So \<open>colorize(1) = "#000000"\<close> and \<open>colorize(16777216) = "#ffffff"\<close>. It is a
  bijection from \<open>[1, 16 ^ 6]\<close> to the strings \<open>#\<close> plus 6 lower-case hexadecimal
  digits: equal colors come from equal values, and each such string is the color of
  a value in the range.
\<close>

theorem colorIndexToHex_bijection:
  "(1 \<le> v \<and> v \<le> 16 ^ 6 \<longrightarrow>
      colorIndexToHex v = 0x23 # padStart (toString (v - 1) 16) 6 0x30 \<and>
      length (colorIndexToHex v) = 7 \<and>
      list_all is_hex (tl (colorIndexToHex v)) \<and>
      hex_value (tl (colorIndexToHex v)) = nat (v - 1)) \<and>
   colorIndexToHex 1 = js ''#000000'' \<and>
   colorIndexToHex 16777216 = js ''#ffffff'' \<and>
   (1 \<le> a \<and> a \<le> 16 ^ 6 \<and> 1 \<le> b \<and> b \<le> 16 ^ 6 \<and>
      colorIndexToHex a = colorIndexToHex b \<longrightarrow> a = b) \<and>
   (length s = 6 \<and> list_all is_hex s \<longrightarrow>
      (\<exists>u. 1 \<le> u \<and> u \<le> 16 ^ 6 \<and> colorIndexToHex u = 0x23 # s))"
proof -
  have 1: "colorIndexToHex v = 0x23 # padStart (toString (v - 1) 16) 6 0x30 \<and>
      length (colorIndexToHex v) = 7 \<and>
      list_all is_hex (tl (colorIndexToHex v)) \<and>
      hex_value (tl (colorIndexToHex v)) = nat (v - 1)" if "1 \<le> v \<and> v \<le> 16 ^ 6"
    using that colorIndexToHex_shape [of v] colorIndexToHex_value [of v]
    by (simp add: colorIndexToHex_def js_def)
  have 2: "colorIndexToHex 1 = js ''#000000''"
    by (simp add: colorIndexToHex_def toString_hex_0 padStart_def js_def replicate_5)
  have 3: "colorIndexToHex 16777216 = js ''#ffffff''"
    by (simp add: colorIndexToHex_def toString_hex_max padStart_def js_def)
  show ?thesis using 1 2 3 colorIndexToHex_inj [of a b] colorIndexToHex_onto [of s] by blast
qed

theorem colorIndexToHex_bijection_witness:
  "colorIndexToHex 256 = 0x23 # padStart (toString (256 - 1) 16) 6 0x30 \<and>
   length (colorIndexToHex 256) = 7 \<and>
   (\<exists>u. 1 \<le> u \<and> u \<le> 16 ^ 6 \<and> colorIndexToHex u = js ''#00000a'')"
proof -
  note t = colorIndexToHex_bijection [where v = 256 and a = 256 and b = 256
      and s = "js ''00000a''"]
  have h: "length (js ''00000a'') = 6 \<and> list_all is_hex (js ''00000a'')"
    by (simp add: js_def is_hex_def)
  have j: "js ''#00000a'' = 0x23 # js ''00000a''" by (simp add: js_def)
  have r: "(1::int) \<le> 256 \<and> (256::int) \<le> 16 ^ 6" by simp
  from t r have a: "colorIndexToHex 256 = 0x23 # padStart (toString (256 - 1) 16) 6 0x30 \<and>
      length (colorIndexToHex 256) = 7" by blast
  from t h have "\<exists>u. 1 \<le> u \<and> u \<le> 16 ^ 6 \<and> colorIndexToHex u = 0x23 # js ''00000a''"
    by blast
  with a show ?thesis unfolding j by blast
qed

text \<open>
  The claim C1 as written gives the colors without the leading \<open>#\<close> that the code
  puts before the digits.
\<close>

theorem colorIndexToHex_prefix_counterexample:
  "colorIndexToHex 1 \<noteq> js ''000000'' \<and> colorIndexToHex 16777216 \<noteq> js ''ffffff''"
  by (simp add: colorIndexToHex_def js_def)

section \<open>The text encoders\<close>

lemma js_iter_concat: "concat (js_iter s) = s"
  by (induction s rule: js_iter.induct) simp_all

lemma js_iter_inj: "js_iter s = js_iter t \<Longrightarrow> s = t"
  by (metis js_iter_concat)

lemma js_iter_Cons: "\<not> is_high_surrogate u \<Longrightarrow> js_iter (u # s) = [u] # js_iter s"
  by (cases s) simp_all

lemma index_map_sound:
  "foldl (\<lambda>m i. m(arr ! i \<mapsto> i)) Map.empty ks ch = Some i \<Longrightarrow> i \<in> set ks \<and> arr ! i = ch"
proof (induction ks arbitrary: ch i rule: rev_induct)
  case Nil
  then show ?case by simp
next
  case (snoc j ks)
  then show ?case by (auto split: if_splits)
qed

lemma index_map_complete:
  "j \<in> set ks \<Longrightarrow> \<exists>i. foldl (\<lambda>m i. m(arr ! i \<mapsto> i)) Map.empty ks (arr ! j) = Some i"
  by (induction ks rule: rev_induct) auto

lemma buildCharIndexMap_sound:
  "buildCharIndexMap arr ch = Some i \<Longrightarrow> i < length arr \<and> arr ! i = ch"
  unfolding buildCharIndexMap_def by (drule index_map_sound) simp

lemma buildCharIndexMap_complete:
  "ch \<in> set arr \<Longrightarrow> \<exists>i. buildCharIndexMap arr ch = Some i"
  unfolding buildCharIndexMap_def in_set_conv_nth
  using index_map_complete [of _ "[0 ..< length arr]" arr] by auto

lemma buildCharIndexMap_distinct:
  assumes "distinct arr" "i < length arr"
  shows "buildCharIndexMap arr (arr ! i) = Some i"
proof -
  from assms(2) have "arr ! i \<in> set arr" by simp
  then obtain j where j: "buildCharIndexMap arr (arr ! i) = Some j"
    using buildCharIndexMap_complete by blast
  from buildCharIndexMap_sound [OF j] assms have "j = i"
    by (auto simp: nth_eq_iff_index_eq)
  with j show ?thesis by simp
qed

lemma bijective_loop_snoc:
  "bijective_loop k m acc (xs @ [c]) =
     (case bijective_loop k m acc xs of
        Inl e \<Rightarrow> Inl e
      | Inr a \<Rightarrow> (case m c of None \<Rightarrow> Inl (CharsetMembershipError c)
                  | Some i \<Rightarrow> Inr (a * k + (int i + 1))))"
  by (induction xs arbitrary: acc) (auto split: option.splits sum.splits simp: Let_def)

lemma digit_unique:
  fixes a b :: int and i j n :: nat
  assumes "i < n" "j < n" "a * int n + int i = b * int n + int j"
  shows "a = b \<and> i = j"
proof -
  have "(a * int n + int i) div int n = a" "(b * int n + int j) div int n = b"
    using assms(1,2) by simp_all
  then have ab: "a = b" using assms(3) by simp
  with assms(3) show ?thesis by simp
qed

lemma bijective_loop_inj:
  assumes m: "m = buildCharIndexMap arr" and k: "k = int (length arr)"
  shows "bijective_loop k m 0 xs = Inr a \<Longrightarrow> bijective_loop k m 0 ys = Inr a \<Longrightarrow> xs = ys"
proof (induction xs arbitrary: ys a rule: rev_induct)
  case Nil
  show ?case
  proof (cases ys rule: rev_cases)
    case Nil
    then show ?thesis by simp
  next
    case (snoc ys' c)
    from Nil.prems(1) have a: "a = 0" by simp
    from Nil.prems(2) obtain b i where b: "bijective_loop k m 0 ys' = Inr b"
      and e: "a = b * k + (int i + 1)"
      unfolding snoc bijective_loop_snoc by (auto split: sum.splits option.splits)
    have "0 \<le> b" using bijective_loop_nonneg [OF _ _ b] k by simp
    then have "0 \<le> b * k" using k by simp
    with a e show ?thesis by simp
  qed
next
  case (snoc c xs)
  from snoc.prems(1) obtain b i where b: "bijective_loop k m 0 xs = Inr b"
    and i: "m c = Some i" and e: "a = b * k + (int i + 1)"
    unfolding bijective_loop_snoc by (auto split: sum.splits option.splits)
  have b0: "0 \<le> b" using bijective_loop_nonneg [OF _ _ b] k by simp
  show ?case
  proof (cases ys rule: rev_cases)
    case Nil
    with snoc.prems(2) have "a = 0" by simp
    moreover have "0 \<le> b * k" using b0 k by simp
    ultimately show ?thesis using e by simp
  next
    case (snoc ys' c')
    from snoc.prems(2) obtain b' i' where b': "bijective_loop k m 0 ys' = Inr b'"
      and i': "m c' = Some i'" and e': "a = b' * k + (int i' + 1)"
      unfolding snoc bijective_loop_snoc by (auto split: sum.splits option.splits)
    from i i' have lt: "i < length arr" "i' < length arr" and cc: "arr ! i = c" "arr ! i' = c'"
      using buildCharIndexMap_sound unfolding m by blast+
    from e e' have "b * int (length arr) + int i = b' * int (length arr) + int i'"
      unfolding k by simp
    from digit_unique [OF lt this] have "b = b'" "i = i'" by simp_all
    with b b' snoc.IH cc show ?thesis unfolding snoc by simp
  qed
qed

lemma bijective_loop_total:
  "\<forall>ch \<in> set xs. m ch \<noteq> None \<Longrightarrow> \<exists>a. bijective_loop k m acc xs = Inr a"
  by (induction xs arbitrary: acc) (auto simp: Let_def)

lemma classic_loop_mapped:
  "classic_loop k m acc xs = Inr n \<Longrightarrow> \<forall>ch \<in> set xs. m ch \<noteq> None"
  by (induction xs arbitrary: acc) (auto split: option.splits)


lemma set_add_prefix: "\<exists>zs. set_add xs x = xs @ zs"
  by (simp add: set_add_def)

lemma set_add_distinct: "distinct xs \<Longrightarrow> distinct (set_add xs x)"
  by (simp add: set_add_def)

lemma set_add_Nil: "set_add [] x = [x]"
  by (simp add: set_add_def)

lemma foldl_prefix:
  assumes "\<And>cs x. \<exists>zs. f cs x = cs @ zs"
  shows "\<exists>zs. foldl f cs xs = cs @ zs"
proof (induction xs arbitrary: cs)
  case Nil
  show ?case by simp
next
  case (Cons x xs)
  from assms obtain zs where "f cs x = cs @ zs" by blast
  moreover from Cons.IH obtain zs' where "foldl f (f cs x) xs = f cs x @ zs'" by blast
  ultimately show ?case by simp
qed

lemma foldl_distinct:
  assumes "\<And>cs x. distinct cs \<Longrightarrow> distinct (f cs x)"
  shows "distinct cs \<Longrightarrow> distinct (foldl f cs xs)"
  by (induction xs arbitrary: cs) (simp_all add: assms)

lemma block_prefix:
  "\<exists>zs. foldl (\<lambda>cs cp. set_add cs (fromCharCode cp)) cs cps = cs @ zs"
  by (rule foldl_prefix) (rule set_add_prefix)

lemma config_prefix:
  "\<exists>zs. foldl (\<lambda>cs blk. foldl (\<lambda>cs cp. set_add cs (fromCharCode cp)) cs
            [fst blk ..< Suc (snd blk)]) cs config = cs @ zs"
  by (rule foldl_prefix) (rule block_prefix)

lemma generateCharsetFromConfig_distinct: "distinct (generateCharsetFromConfig config)"
  unfolding generateCharsetFromConfig_def Let_def
  by (intro set_add_distinct foldl_distinct) simp_all

lemma generateCharsetFromConfig_first:
  assumes "lo \<le> hi"
  shows "\<exists>zs. generateCharsetFromConfig ((lo, hi) # rest) = [lo mod 65536] # zs"
proof -
  let ?G = "\<lambda>cs cp. set_add cs (fromCharCode cp)"
  let ?F = "\<lambda>cs blk. foldl ?G cs [fst blk ..< Suc (snd blk)]"
  have u: "[lo ..< Suc hi] = lo # [Suc lo ..< Suc hi]"
    using assms by (intro upt_conv_Cons) simp
  have g: "?G [] lo = [[lo mod 65536]]"
    by (simp only: set_add_Nil fromCharCode_def)
  obtain z1 where z1: "foldl ?G [[lo mod 65536]] [Suc lo ..< Suc hi] = [[lo mod 65536]] @ z1"
    using block_prefix [of "[[lo mod 65536]]" "[Suc lo ..< Suc hi]"] by blast
  have "foldl ?G [] [lo ..< Suc hi] = foldl ?G (?G [] lo) [Suc lo ..< Suc hi]"
    by (simp only: u foldl_Cons)
  then have b: "foldl ?G [] [lo ..< Suc hi] = [[lo mod 65536]] @ z1"
    by (simp only: g z1)
  obtain z2 where z2: "foldl ?F ([[lo mod 65536]] @ z1) rest = ([[lo mod 65536]] @ z1) @ z2"
    using config_prefix [of "[[lo mod 65536]] @ z1" rest] by blast
  have "foldl ?F [] ((lo, hi) # rest) = foldl ?F (foldl ?G [] [lo ..< Suc hi]) rest"
    by (simp only: foldl_Cons fst_conv snd_conv)
  then have c: "foldl ?F [] ((lo, hi) # rest) = ([[lo mod 65536]] @ z1) @ z2"
    by (simp only: b z2)
  obtain z3 where z3: "set_add (([[lo mod 65536]] @ z1) @ z2) [0x0A]
      = (([[lo mod 65536]] @ z1) @ z2) @ z3"
    using set_add_prefix [of "([[lo mod 65536]] @ z1) @ z2" "[0x0A]"] by blast
  obtain z4 where z4: "set_add ((([[lo mod 65536]] @ z1) @ z2) @ z3) [0x09]
      = ((([[lo mod 65536]] @ z1) @ z2) @ z3) @ z4"
    using set_add_prefix [of "(([[lo mod 65536]] @ z1) @ z2) @ z3" "[0x09]"] by blast
  have "generateCharsetFromConfig ((lo, hi) # rest)
      = ((([[lo mod 65536]] @ z1) @ z2) @ z3) @ z4"
    by (simp only: generateCharsetFromConfig_def Let_def c z3 z4)
  then have "generateCharsetFromConfig ((lo, hi) # rest) = [lo mod 65536] # (z1 @ z2 @ z3 @ z4)"
    by (simp only: append_Cons append_Nil append_assoc)
  then show ?thesis by blast
qed

lemma first_symbol_index:
  assumes "lo \<le> hi"
  shows "buildCharIndexMap (generateCharsetFromConfig ((lo, hi) # rest)) [lo mod 65536] = Some 0"
proof -
  from generateCharsetFromConfig_first [OF assms, of rest] obtain zs
    where g: "generateCharsetFromConfig ((lo, hi) # rest) = [lo mod 65536] # zs" by blast
  have "buildCharIndexMap (generateCharsetFromConfig ((lo, hi) # rest))
      (generateCharsetFromConfig ((lo, hi) # rest) ! 0) = Some 0"
    by (rule buildCharIndexMap_distinct [OF generateCharsetFromConfig_distinct]) (simp add: g)
  then show ?thesis by (simp add: g)
qed


lemma space_index:
  "buildCharIndexMap (generateCharsetFromConfig charsetConfigLite) [0x20] = Some 0"
  "buildCharIndexMap (generateCharsetFromConfig charsetConfigFull) [0x20] = Some 0"
proof -
  have m: "(0x20::nat) mod 65536 = 0x20" by simp
  show "buildCharIndexMap (generateCharsetFromConfig charsetConfigLite) [0x20] = Some 0"
    unfolding charsetConfigLite_def
    using first_symbol_index [of "0x20" "0x7F"] unfolding m by simp
  show "buildCharIndexMap (generateCharsetFromConfig charsetConfigFull) [0x20] = Some 0"
    unfolding charsetConfigFull_def
    using first_symbol_index [of "0x20" "0x7F"] unfolding m by simp
qed

lemma small_charset:
  "generateCharsetFromConfig [(0x61, 0x63)] = [[0x61], [0x62], [0x63], [0x0A], [0x09]]"
  by (simp add: generateCharsetFromConfig_def set_add_def fromCharCode_def)

lemma small_charset_index:
  "buildCharIndexMap (generateCharsetFromConfig [(0x61, 0x63)]) [0x61] = Some 0"
  "buildCharIndexMap (generateCharsetFromConfig [(0x61, 0x63)]) [0x62] = Some 1"
  using buildCharIndexMap_distinct [of "generateCharsetFromConfig [(0x61, 0x63)]" 0]
    buildCharIndexMap_distinct [of "generateCharsetFromConfig [(0x61, 0x63)]" 1]
  by (simp_all add: small_charset)

text \<open>
  C2. The bijective base-k encoding is injective on the strings over the symbol table:
  two distinct strings, both non-empty and not all white space, whose characters (the
  code points that the encoder iterates over) are all in the symbol table, are both
  encoded and their integers differ. The symbol table is any array with the index map
  that \<open>buildCharIndexMap\<close> builds from it.
\<close>

theorem bijective_encoding_injective:
  assumes "charToIdx = buildCharIndexMap charsetArr"
    and "s \<noteq> t"
    and "s \<noteq> []" "\<not> list_all is_ws s" "t \<noteq> []" "\<not> list_all is_ws t"
    and "set (js_iter s) \<subseteq> set charsetArr" "set (js_iter t) \<subseteq> set charsetArr"
  shows "\<exists>a b. encodeStringBijective s charsetArr charToIdx = Inr a \<and>
               encodeStringBijective t charsetArr charToIdx = Inr b \<and> a \<noteq> b"
proof -
  let ?k = "int (length charsetArr)"
  have ms: "\<forall>ch \<in> set (js_iter s). charToIdx ch \<noteq> None"
    and mt: "\<forall>ch \<in> set (js_iter t). charToIdx ch \<noteq> None"
    using assms(1,7,8) buildCharIndexMap_complete [of _ charsetArr] by auto
  obtain a where a: "bijective_loop ?k charToIdx 0 (js_iter s) = Inr a"
    using bijective_loop_total [OF ms, of ?k 0] by blast
  obtain b where b: "bijective_loop ?k charToIdx 0 (js_iter t) = Inr b"
    using bijective_loop_total [OF mt, of ?k 0] by blast
  have "a \<noteq> b"
  proof
    assume "a = b"
    with a b have "js_iter s = js_iter t"
      using bijective_loop_inj [OF assms(1) refl] by blast
    then show False using assms(2) js_iter_inj by blast
  qed
  moreover have "encodeStringBijective s charsetArr charToIdx = Inr a"
    using a assms(3,4) by (simp add: encodeStringBijective_def trim_empty_iff)
  moreover have "encodeStringBijective t charsetArr charToIdx = Inr b"
    using b assms(5,6) by (simp add: encodeStringBijective_def trim_empty_iff)
  ultimately show ?thesis by blast
qed

theorem bijective_encoding_injective_witness:
  "\<exists>a b. encodeStringBijective (js ''a'') (generateCharsetFromConfig [(0x61, 0x63)])
             (buildCharIndexMap (generateCharsetFromConfig [(0x61, 0x63)])) = Inr a \<and>
         encodeStringBijective (js ''aa'') (generateCharsetFromConfig [(0x61, 0x63)])
             (buildCharIndexMap (generateCharsetFromConfig [(0x61, 0x63)])) = Inr b \<and> a \<noteq> b"
proof -
  have 1: "js ''a'' \<noteq> js ''aa''" "js ''a'' \<noteq> []" "js ''aa'' \<noteq> []"
    by (simp_all add: js_def)
  have 2: "\<not> list_all is_ws (js ''a'')" "\<not> list_all is_ws (js ''aa'')"
    by (simp_all add: js_def is_ws_def)
  have 3: "set (js_iter (js ''a'')) \<subseteq> set (generateCharsetFromConfig [(0x61, 0x63)])"
    "set (js_iter (js ''aa'')) \<subseteq> set (generateCharsetFromConfig [(0x61, 0x63)])"
    by (simp_all add: js_def is_high_surrogate_def small_charset)
  show ?thesis
    by (rule bijective_encoding_injective [OF refl 1(1) 1(2) 2(1) 1(3) 2(2) 3])
qed

text \<open>
  C4. Let \<open>u\<close> be the symbol of index 0 (a single code unit that is not a high
  surrogate, as the space is in both charset profiles) and \<open>s\<close> a string that the classic
  encoder encodes to \<open>n\<close>. Then the classic encoder also encodes \<open>u\<close> followed by \<open>s\<close>
  to \<open>n\<close>, whereas the bijective encoder encodes the two strings to two distinct
  integers.
\<close>

theorem classic_collides_bijective_distinguishes:
  assumes "charToIdx = buildCharIndexMap charsetArr"
    and "charToIdx [u] = Some 0" "\<not> is_high_surrogate u"
    and "encodeStringClassic s charsetArr charToIdx = Inr n"
  shows "encodeStringClassic (u # s) charsetArr charToIdx = Inr n \<and>
         (\<exists>a b. encodeStringBijective s charsetArr charToIdx = Inr a \<and>
            encodeStringBijective (u # s) charsetArr charToIdx = Inr b \<and> a \<noteq> b) \<and>
         buildCharIndexMap (generateCharsetFromConfig charsetConfigLite) [0x20] = Some 0 \<and>
         buildCharIndexMap (generateCharsetFromConfig charsetConfigFull) [0x20] = Some 0 \<and>
         \<not> is_high_surrogate 0x20"
proof -
  let ?k = "int (length charsetArr)"
  from assms(4) have ne: "s \<noteq> []" "\<not> list_all is_ws s"
    and c: "classic_loop ?k charToIdx 0 (js_iter s) = Inr n"
    by (auto simp: encodeStringClassic_def trim_empty_iff split: if_splits)
  have ne': "\<not> list_all is_ws (u # s)" using ne(2) by simp
  have it: "js_iter (u # s) = [u] # js_iter s" using assms(3) by (rule js_iter_Cons)
  have 1: "encodeStringClassic (u # s) charsetArr charToIdx = Inr n"
    using c ne' by (simp add: encodeStringClassic_def trim_empty_iff it assms(2))
  have ms: "\<forall>ch \<in> set (js_iter s). charToIdx ch \<noteq> None"
    using c by (rule classic_loop_mapped)
  then have mu: "\<forall>ch \<in> set (js_iter (u # s)). charToIdx ch \<noteq> None"
    using assms(2) by (simp add: it)
  obtain a where a: "bijective_loop ?k charToIdx 0 (js_iter s) = Inr a"
    using bijective_loop_total [OF ms, of ?k 0] by blast
  obtain b where b: "bijective_loop ?k charToIdx 0 (js_iter (u # s)) = Inr b"
    using bijective_loop_total [OF mu, of ?k 0] by blast
  have "a \<noteq> b"
  proof
    assume "a = b"
    with a b have "js_iter s = js_iter (u # s)"
      using bijective_loop_inj [OF assms(1) refl] by blast
    then show False by (simp add: it)
  qed
  moreover have "encodeStringBijective s charsetArr charToIdx = Inr a"
    using a ne by (simp add: encodeStringBijective_def trim_empty_iff)
  moreover have "encodeStringBijective (u # s) charsetArr charToIdx = Inr b"
    using b ne' by (simp add: encodeStringBijective_def trim_empty_iff)
  ultimately show ?thesis using 1 space_index by (auto simp: is_high_surrogate_def)
qed

theorem classic_collides_bijective_distinguishes_witness:
  "encodeStringClassic (js ''b'') (generateCharsetFromConfig [(0x61, 0x63)])
      (buildCharIndexMap (generateCharsetFromConfig [(0x61, 0x63)])) = Inr 1 \<and>
   encodeStringClassic (js ''ab'') (generateCharsetFromConfig [(0x61, 0x63)])
      (buildCharIndexMap (generateCharsetFromConfig [(0x61, 0x63)])) = Inr 1"
proof -
  let ?arr = "generateCharsetFromConfig [(0x61, 0x63)]"
  have u: "\<not> is_high_surrogate 0x61" by (simp add: is_high_surrogate_def)
  have tr: "trim (js ''b'') = js ''b''" by (simp add: trim_def js_def is_ws_def)
  have len: "length ?arr = 5" by (simp add: small_charset)
  have b: "encodeStringClassic (js ''b'') ?arr (buildCharIndexMap ?arr) = Inr 1"
    unfolding encodeStringClassic_def tr len
    by (simp add: js_def small_charset_index)
  have ab: "js ''ab'' = 0x61 # js ''b''" by (simp add: js_def)
  from classic_collides_bijective_distinguishes [OF refl small_charset_index(1) u b]
  show ?thesis using b unfolding ab by blast
qed

end
